theory Spec2Isabelle
  imports Main "HOL-Library.Multiset"
begin

section \<open>Python values and failures\<close>

text \<open>
  The exceptions that the modelled code of \<^verbatim>\<open>data_utils.py\<close> can raise. Every function
  that can raise returns \<open>error + 'a\<close>, with \<open>Inl\<close> for the exception.
\<close>

datatype error = IndexError | ZeroDivisionError | ValueError | AssertionError | RuntimeError

text \<open>
  Python list indexing: an index \<open>i\<close> with \<open>0 \<le> i < n\<close> is itself, an index with
  \<open>-n \<le> i < 0\<close> counts from the end, any other index raises IndexError.
\<close>

definition py_index :: "nat \<Rightarrow> int \<Rightarrow> nat option" where
  "py_index n i =
     (if 0 \<le> i \<and> i < int n then Some (nat i)
      else if i < 0 \<and> - int n \<le> i then Some (nat (i + int n))
      else None)"

definition getitem :: "'a list \<Rightarrow> int \<Rightarrow> error + 'a" where
  "getitem xs i =
     (case py_index (length xs) i of None \<Rightarrow> Inl IndexError | Some k \<Rightarrow> Inr (xs ! k))"

text \<open>\<^verbatim>\<open>xs.pop(i)\<close>: the list that remains (the popped element is not used by the code).\<close>

definition pop :: "'a list \<Rightarrow> int \<Rightarrow> error + 'a list" where
  "pop xs i =
     (case py_index (length xs) i of
        None \<Rightarrow> Inl IndexError
      | Some k \<Rightarrow> Inr (take k xs @ drop (Suc k) xs))"

text \<open>\<^verbatim>\<open>xs * n\<close> for a list and an integer: empty when \<open>n \<le> 0\<close>.\<close>

definition list_mul :: "'a list \<Rightarrow> int \<Rightarrow> 'a list" where
  "list_mul xs n = concat (replicate (nat n) xs)"

text \<open>A slice bound of Python, clipped into \<open>0..n\<close>.\<close>

definition clip_bound :: "nat \<Rightarrow> int \<Rightarrow> nat" where
  "clip_bound n k = (if k < 0 then nat (max 0 (k + int n)) else nat (min k (int n)))"

text \<open>\<^verbatim>\<open>xs[:k]\<close> and \<^verbatim>\<open>xs[lo:hi]\<close>.\<close>

definition slice_to :: "'a list \<Rightarrow> int \<Rightarrow> 'a list" where
  "slice_to xs k = take (clip_bound (length xs) k) xs"

definition slice :: "'a list \<Rightarrow> int \<Rightarrow> int \<Rightarrow> 'a list" where
  "slice xs lo hi =
     (let l = clip_bound (length xs) lo; h = clip_bound (length xs) hi
      in take (h - l) (drop l xs))"

text \<open>
  \<^verbatim>\<open>xs[start::step]\<close>. A zero step raises ValueError. With a positive step the elements
  at \<open>start, start + step, \<dots>\<close> below the length are taken (a start below \<open>-n\<close> is
  clipped to 0, a start above \<open>n\<close> to \<open>n\<close>); with a negative step the elements at
  \<open>start, start + step, \<dots>\<close> down to index 0 (a start above \<open>n - 1\<close> is clipped to
  \<open>n - 1\<close>, a start below \<open>-n\<close> gives the empty list).
\<close>

definition slice_step :: "'a list \<Rightarrow> int \<Rightarrow> int \<Rightarrow> error + 'a list" where
  "slice_step xs start step =
     (let n = int (length xs) in
      if step = 0 then Inl ValueError
      else if 0 < step then
        (let s = (if start < 0 then max 0 (start + n) else min start n)
         in Inr (map (\<lambda>k. xs ! (nat s + k * nat step)) [0..<nat ((n - s + step - 1) div step)]))
      else
        (let s = (if start < 0 then max (-1) (start + n) else min start (n - 1))
         in Inr (map (\<lambda>k. xs ! (nat s - k * nat (- step)))
                  [0..<(if s < 0 then 0 else nat (s div (- step)) + 1)])))"

text \<open>\<^verbatim>\<open>[xs[i] for i in idxs]\<close>, raising at the first index out of range.\<close>

fun getitems :: "'a list \<Rightarrow> nat list \<Rightarrow> error + 'a list" where
  "getitems xs [] = Inr []"
| "getitems xs (i # is) =
     (case getitem xs (int i) of
        Inl e \<Rightarrow> Inl e
      | Inr x \<Rightarrow> (case getitems xs is of Inl e \<Rightarrow> Inl e | Inr ys \<Rightarrow> Inr (x # ys)))"

section \<open>MelLoader and AudioMelMixedMaskRandomLoader\<close>

text \<open>
  The manifest is the list of its records \<open>(path, length)\<close>, one for each line
  \<^verbatim>\<open>path|length\<close>, in file order; reading the file and parsing a line are not part of
  the model. \<^verbatim>\<open>random.seed(1234); random.shuffle(xs)\<close> of the standard library is the
  parameter \<open>shuffle1234\<close>: the list that \<open>xs\<close> becomes. The records keep the integer
  configuration fields and the two lists; \<open>return_name\<close> and the floating-point
  \<open>mask_value\<close> are left out.
\<close>

record mel_loader =
  max_length :: int
  min_len :: int
  hop_length :: int
  npys :: "string list"
  lengths :: "int list"

definition MelLoader_init ::
    "(string list \<Rightarrow> string list) \<Rightarrow> (string \<times> int) list \<Rightarrow> int \<Rightarrow> int \<Rightarrow> int \<Rightarrow> mel_loader" where
  "MelLoader_init shuffle1234 manifest hps_max_length hps_min_length hps_hop_length =
     \<lparr>max_length = hps_max_length, min_len = hps_min_length, hop_length = hps_hop_length,
      npys = shuffle1234 (map fst manifest),
      lengths = map (\<lambda>length. if length \<le> hps_max_length then length else hps_max_length)
                  (map snd manifest)\<rparr>"

record audio_mel_loader =
  max_length :: int
  min_len :: int
  hop_length :: int
  npzs :: "string list"
  lengths :: "int list"

definition AudioMelMixedMaskRandomLoader_init ::
    "(string list \<Rightarrow> string list) \<Rightarrow> (string \<times> int) list \<Rightarrow> int \<Rightarrow> int \<Rightarrow> int
      \<Rightarrow> audio_mel_loader" where
  "AudioMelMixedMaskRandomLoader_init shuffle1234 manifest hps_max_length hps_min_length hps_hop_length =
     \<lparr>max_length = hps_max_length, min_len = hps_min_length, hop_length = hps_hop_length,
      npzs = shuffle1234 (map fst manifest),
      lengths = map (\<lambda>length. if length \<le> hps_max_length then length else hps_max_length)
                  (map snd manifest)\<rparr>"

section \<open>MelCollate\<close>

text \<open>
  A two-dimensional tensor with its sizes; \<open>entries\<close> holds \<open>size0\<close> rows of \<open>size1\<close>
  values. The values are only copied, so their type is left open.
\<close>

record 'a tensor2 =
  size0 :: nat
  size1 :: nat
  entries :: "'a list list"

definition tensor_ok :: "'a tensor2 \<Rightarrow> bool" where
  "tensor_ok t \<longleftrightarrow> length (entries t) = size0 t \<and> (\<forall>r\<in>set (entries t). length r = size1 t)"

text \<open>
  \<^verbatim>\<open>mel_padded[i, :, :mel.size(1)] = mel\<close> on row block \<open>old\<close> of the buffer, which has
  \<open>max_len\<close> columns. The target has \<open>min (size1 mel) max_len\<close> columns; the source is
  broadcast to it where one of its sizes is 1, and any other mismatch of the shapes raises
  RuntimeError.
\<close>

definition assign_block :: "'a list list \<Rightarrow> nat \<Rightarrow> 'a tensor2 \<Rightarrow> error + 'a list list" where
  "assign_block old max_len mel =
     (let w = min (size1 mel) max_len in
      if (size1 mel = w \<or> size1 mel = 1) \<and> (size0 mel = length old \<or> size0 mel = 1) then
        Inr (map (\<lambda>r. (let src = entries mel ! (if size0 mel = length old then r else 0)
                        in (if size1 mel = w then src else replicate w (src ! 0))
                           @ drop w (old ! r)))
               [0..<length old])
      else Inl RuntimeError)"

text \<open>
  The loop of \<^verbatim>\<open>__call__\<close> over \<^verbatim>\<open>range(len(ids_sorted_decreasing))\<close>. An entry of
  \<open>mel_lengths\<close> is \<open>None\<close> until it is written.
\<close>

fun collate_loop :: "'a tensor2 list \<Rightarrow> nat list \<Rightarrow> nat \<Rightarrow> nat list
    \<Rightarrow> 'a list list list \<times> int option list \<Rightarrow> error + 'a list list list \<times> int option list" where
  "collate_loop batch ids max_len [] st = Inr st"
| "collate_loop batch ids max_len (i # is) (mel_padded, mel_lengths) =
     (case getitem ids (int i) of
        Inl e \<Rightarrow> Inl e
      | Inr k \<Rightarrow>
          (case getitem batch (int k) of
             Inl e \<Rightarrow> Inl e
           | Inr mel \<Rightarrow>
               if i < length mel_padded then
                 (case assign_block (mel_padded ! i) max_len mel of
                    Inl e \<Rightarrow> Inl e
                  | Inr block \<Rightarrow>
                      if i < length mel_lengths then
                        collate_loop batch ids max_len is
                          (mel_padded[i := block], mel_lengths[i := Some (int (size1 mel))])
                      else Inl IndexError)
               else Inl IndexError))"

text \<open>
  \<^verbatim>\<open>MelCollate.__call__\<close> on the first components of the batch items. \<open>sort_desc\<close> stands
  for the indices that \<^verbatim>\<open>torch.sort(\<dots>, descending=True)\<close> returns.
\<close>

definition MelCollate_call :: "(int list \<Rightarrow> nat list) \<Rightarrow> int \<Rightarrow> ('a::zero) tensor2 list
    \<Rightarrow> error + 'a list list list \<times> int option list" where
  "MelCollate_call sort_desc max_len batch =
     (let ids_sorted_decreasing = sort_desc (map (\<lambda>x. int (size1 x)) batch);
          mel_lengths = replicate (length batch) None
      in case getitem batch 0 of
           Inl e \<Rightarrow> Inl e
         | Inr first \<Rightarrow>
             if max_len < 0 then Inl RuntimeError
             else collate_loop batch ids_sorted_decreasing (nat max_len)
                    [0..<length ids_sorted_decreasing]
                    (replicate (length batch) (replicate (size0 first) (replicate (nat max_len) 0)),
                     mel_lengths))"

text \<open>
  What the library promises of the indices of a descending sort: a permutation of the
  positions along which the keys do not increase.
\<close>

definition sort_contract :: "(int list \<Rightarrow> nat list) \<Rightarrow> bool" where
  "sort_contract sort_desc \<longleftrightarrow>
     (\<forall>keys. mset (sort_desc keys) = mset [0..<length keys]
        \<and> sorted_wrt (\<lambda>a b. a \<ge> b) (map ((!) keys) (sort_desc keys)))"

section \<open>DistributedBucketSampler\<close>

text \<open>
  The fields of the sampler that the code reads or writes. \<open>num_replicas\<close>, \<open>rank\<close>,
  \<open>shuffle\<close> and \<open>epoch\<close> are set by the constructor of the library class
  \<^verbatim>\<open>DistributedSampler\<close>; \<open>batches\<close> does not exist before the first \<^verbatim>\<open>__iter__\<close>.
  Item indices and positions inside a bucket are natural numbers.
\<close>

record sampler =
  lengths :: "int list"
  batch_size :: int
  boundaries :: "int list"
  num_replicas :: int
  rank :: int
  shuffle :: bool
  epoch :: int
  buckets :: "nat list list"
  num_samples_per_bucket :: "int list"
  total_size :: int
  num_samples :: int
  batches :: "nat list list option"

subsection \<open>\<^verbatim>\<open>_bisect\<close>\<close>

function bisect :: "int list \<Rightarrow> int \<Rightarrow> int \<Rightarrow> int \<Rightarrow> error + int" where
  "bisect bs x lo hi =
     (if hi > lo then
        (let mid = (hi + lo) div 2 in
         case getitem bs mid of
           Inl e \<Rightarrow> Inl e
         | Inr bm \<Rightarrow>
             if bm < x then
               (case getitem bs (mid + 1) of
                  Inl e \<Rightarrow> Inl e
                | Inr bm1 \<Rightarrow> if x \<le> bm1 then Inr mid else bisect bs x (mid + 1) hi)
             else bisect bs x lo mid)
      else Inr (- 1))"
  by pat_completeness auto
termination
  by (relation "measure (\<lambda>(bs, x, lo, hi). nat (hi - lo))") auto

declare bisect.simps [simp del]

text \<open>The call \<^verbatim>\<open>self._bisect(length)\<close>, with \<open>lo = 0\<close> and \<open>hi = len(boundaries) - 1\<close>.\<close>

definition bisect_call :: "int list \<Rightarrow> int \<Rightarrow> error + int" where
  "bisect_call bs x = bisect bs x 0 (int (length bs) - 1)"

subsection \<open>\<^verbatim>\<open>_create_buckets\<close>\<close>

text \<open>The first loop: item \<open>i\<close> is appended to the bucket that \<open>_bisect\<close> names, if any.\<close>

fun fill_buckets :: "int list \<Rightarrow> int list \<Rightarrow> nat list \<Rightarrow> nat list list \<Rightarrow> error + nat list list" where
  "fill_buckets bs ls [] bk = Inr bk"
| "fill_buckets bs ls (i # is) bk =
     (case getitem ls (int i) of
        Inl e \<Rightarrow> Inl e
      | Inr len \<Rightarrow>
          (case bisect_call bs len of
             Inl e \<Rightarrow> Inl e
           | Inr idx_bucket \<Rightarrow>
               if idx_bucket \<noteq> - 1 then
                 (case py_index (length bk) idx_bucket of
                    None \<Rightarrow> Inl IndexError
                  | Some k \<Rightarrow> fill_buckets bs ls is (bk[k := bk ! k @ [i]]))
               else fill_buckets bs ls is bk))"

text \<open>
  The second loop, over \<^verbatim>\<open>range(len(buckets) - 1, 0, -1)\<close>: an empty bucket \<open>i\<close> is popped
  together with boundary \<open>i + 1\<close>.
\<close>

fun drop_empty :: "nat list \<Rightarrow> nat list list \<times> int list \<Rightarrow> error + nat list list \<times> int list" where
  "drop_empty [] st = Inr st"
| "drop_empty (i # is) (bk, bs) =
     (case getitem bk (int i) of
        Inl e \<Rightarrow> Inl e
      | Inr b \<Rightarrow>
          if length b = 0 then
            (case pop bk (int i) of
               Inl e \<Rightarrow> Inl e
             | Inr bk' \<Rightarrow>
                 (case pop bs (int i + 1) of
                    Inl e \<Rightarrow> Inl e
                  | Inr bs' \<Rightarrow> drop_empty is (bk', bs')))
          else drop_empty is (bk, bs))"

text \<open>The third loop: the number of samples each bucket is padded to.\<close>

fun count_samples :: "int \<Rightarrow> int \<Rightarrow> nat list list \<Rightarrow> error + int list" where
  "count_samples R B [] = Inr []"
| "count_samples R B (b # bk) =
     (let len_bucket = int (length b); total_batch_size = R * B in
      if total_batch_size = 0 then Inl ZeroDivisionError
      else
        (let rem = (total_batch_size - (len_bucket mod total_batch_size)) mod total_batch_size in
         case count_samples R B bk of
           Inl e \<Rightarrow> Inl e
         | Inr ns \<Rightarrow> Inr ((len_bucket + rem) # ns)))"

text \<open>
  \<^verbatim>\<open>_create_buckets\<close> returns the buckets and their sample counts, and leaves the shrunk
  boundary list in \<open>self.boundaries\<close>.
\<close>

definition create_buckets :: "sampler \<Rightarrow> error + sampler \<times> nat list list \<times> int list" where
  "create_buckets s =
     (case fill_buckets (boundaries s) (lengths s) [0..<length (lengths s)]
             (replicate (nat (int (length (boundaries s)) - 1)) []) of
        Inl e \<Rightarrow> Inl e
      | Inr bk \<Rightarrow>
          (case drop_empty (rev [1..<length bk]) (bk, boundaries s) of
             Inl e \<Rightarrow> Inl e
           | Inr (bk', bs') \<Rightarrow>
               (case count_samples (num_replicas s) (batch_size s) bk' of
                  Inl e \<Rightarrow> Inl e
                | Inr ns \<Rightarrow> Inr (s\<lparr>boundaries := bs'\<rparr>, bk', ns))))"

subsection \<open>\<^verbatim>\<open>__init__\<close>\<close>

text \<open>
  The constructor. Its first statement calls the constructor of the library class
  \<^verbatim>\<open>DistributedSampler\<close>, which raises ValueError unless \<open>0 \<le> rank < num_replicas\<close> and
  otherwise stores \<open>num_replicas\<close>, \<open>rank\<close> and \<open>shuffle\<close> and sets \<open>epoch\<close> to 0; the
  \<open>num_samples\<close> and \<open>total_size\<close> it computes are overwritten below. \<open>nrep\<close> and \<open>rk\<close>
  are the values of \<open>num_replicas\<close> and \<open>rank\<close> after the distributed runtime has filled in
  the ones passed as \<^verbatim>\<open>None\<close>. \<open>dataset_lengths\<close> is \<^verbatim>\<open>dataset.lengths\<close>.
\<close>

definition init :: "int list \<Rightarrow> int \<Rightarrow> int list \<Rightarrow> int \<Rightarrow> int \<Rightarrow> bool \<Rightarrow> error + sampler" where
  "init dataset_lengths bsz bnds nrep rk shuf =
     (if rk \<ge> nrep \<or> rk < 0 then Inl ValueError
      else
        (let s = \<lparr>lengths = dataset_lengths, batch_size = bsz, boundaries = bnds,
                  num_replicas = nrep, rank = rk, shuffle = shuf, epoch = 0,
                  buckets = [], num_samples_per_bucket = [], total_size = 0, num_samples = 0,
                  batches = None\<rparr>
         in case create_buckets s of
              Inl e \<Rightarrow> Inl e
            | Inr (s', bk, ns) \<Rightarrow>
                (let s'' = s'\<lparr>buckets := bk, num_samples_per_bucket := ns,
                             total_size := sum_list ns\<rparr>
                 in if num_replicas s'' = 0 then Inl ZeroDivisionError
                    else Inr (s''\<lparr>num_samples := total_size s'' div num_replicas s''\<rparr>))))"

definition set_epoch :: "sampler \<Rightarrow> int \<Rightarrow> sampler" where
  "set_epoch s e = s\<lparr>epoch := e\<rparr>"

subsection \<open>\<^verbatim>\<open>__iter__\<close> and \<^verbatim>\<open>__len__\<close>\<close>

text \<open>
  The random generator of the library is a parameter: \<open>manual_seed e\<close> is the state of a
  fresh generator seeded with \<open>e\<close>, and \<open>randperm n g\<close> returns the permutation drawn
  in state \<open>g\<close> and the state after the draw.
\<close>

fun draw_indices :: "(nat \<Rightarrow> 'g \<Rightarrow> nat list \<times> 'g) \<Rightarrow> nat list list \<Rightarrow> 'g \<Rightarrow> nat list list \<times> 'g" where
  "draw_indices randperm [] g = ([], g)"
| "draw_indices randperm (bucket # bk) g =
     (case randperm (length bucket) g of
        (p, g') \<Rightarrow> (case draw_indices randperm bk g' of (ps, g'') \<Rightarrow> (p # ps, g'')))"

text \<open>The index list of a bucket, extended to \<open>num_samples_bucket\<close> entries.\<close>

definition extend_ids :: "nat list \<Rightarrow> int \<Rightarrow> int \<Rightarrow> error + nat list" where
  "extend_ids ids_bucket len_bucket num_samples_bucket =
     (let rem = num_samples_bucket - len_bucket in
      if len_bucket = 0 then Inl ZeroDivisionError
      else Inr (ids_bucket @ list_mul ids_bucket (rem div len_bucket)
                  @ slice_to ids_bucket (rem mod len_bucket)))"

text \<open>The batches of one rank from one bucket.\<close>

fun make_batches :: "nat list \<Rightarrow> nat list \<Rightarrow> int \<Rightarrow> nat list \<Rightarrow> error + nat list list" where
  "make_batches bucket ids_bucket bsz [] = Inr []"
| "make_batches bucket ids_bucket bsz (j # js) =
     (case getitems bucket (slice ids_bucket (int j * bsz) ((int j + 1) * bsz)) of
        Inl e \<Rightarrow> Inl e
      | Inr batch \<Rightarrow>
          (case make_batches bucket ids_bucket bsz js of
             Inl e \<Rightarrow> Inl e
           | Inr bt \<Rightarrow> Inr (batch # bt)))"

definition bucket_batches :: "int \<Rightarrow> int \<Rightarrow> int \<Rightarrow> nat list \<Rightarrow> nat list \<Rightarrow> int \<Rightarrow> error + nat list list" where
  "bucket_batches rk nrep bsz bucket ids_bucket num_samples_bucket =
     (case extend_ids ids_bucket (int (length bucket)) num_samples_bucket of
        Inl e \<Rightarrow> Inl e
      | Inr ids1 \<Rightarrow>
          (case slice_step ids1 rk nrep of
             Inl e \<Rightarrow> Inl e
           | Inr ids2 \<Rightarrow>
               if bsz = 0 then Inl ZeroDivisionError
               else make_batches bucket ids2 bsz [0..<nat (int (length ids2) div bsz)]))"

text \<open>The loop over \<^verbatim>\<open>range(len(self.buckets))\<close>.\<close>

fun batch_loop :: "sampler \<Rightarrow> nat list list \<Rightarrow> nat list \<Rightarrow> error + nat list list" where
  "batch_loop s indices [] = Inr []"
| "batch_loop s indices (i # is) =
     (case getitem (buckets s) (int i) of
        Inl e \<Rightarrow> Inl e
      | Inr bucket \<Rightarrow>
          (case getitem indices (int i) of
             Inl e \<Rightarrow> Inl e
           | Inr ids_bucket \<Rightarrow>
               (case getitem (num_samples_per_bucket s) (int i) of
                  Inl e \<Rightarrow> Inl e
                | Inr num_samples_bucket \<Rightarrow>
                    (case bucket_batches (rank s) (num_replicas s) (batch_size s)
                            bucket ids_bucket num_samples_bucket of
                       Inl e \<Rightarrow> Inl e
                     | Inr bt \<Rightarrow>
                         (case batch_loop s indices is of
                            Inl e \<Rightarrow> Inl e
                          | Inr rest \<Rightarrow> Inr (bt @ rest))))))"

text \<open>
  \<^verbatim>\<open>__iter__\<close> returns the batches (or the exception) and the sampler, whose \<open>batches\<close>
  field is written before the assertion is evaluated.
\<close>

definition iter :: "(int \<Rightarrow> 'g) \<Rightarrow> (nat \<Rightarrow> 'g \<Rightarrow> nat list \<times> 'g) \<Rightarrow> sampler
    \<Rightarrow> (error + nat list list) \<times> sampler" where
  "iter manual_seed randperm s =
     (let g = manual_seed (epoch s);
          (indices, g1) = (if shuffle s then draw_indices randperm (buckets s) g
                           else (map (\<lambda>bucket. [0..<length bucket]) (buckets s), g))
      in case batch_loop s indices [0..<length (buckets s)] of
           Inl e \<Rightarrow> (Inl e, s)
         | Inr bt \<Rightarrow>
             (case (if shuffle s then getitems bt (fst (randperm (length bt) g1)) else Inr bt) of
                Inl e \<Rightarrow> (Inl e, s)
              | Inr bt' \<Rightarrow>
                  (let s' = s\<lparr>batches := Some bt'\<rparr>
                   in if int (length bt') * batch_size s' = num_samples s' then (Inr bt', s')
                      else (Inl AssertionError, s'))))"

definition len :: "sampler \<Rightarrow> error + int" where
  "len s = (if batch_size s = 0 then Inl ZeroDivisionError
            else Inr (num_samples s div batch_size s))"

subsection \<open>Notions used in the statements\<close>

text \<open>
  \<open>assigned bs ls b\<close> lists, in increasing order, the items that \<open>_bisect\<close> sends to
  bucket \<open>b\<close>; \<open>retained bs ls\<close> is the bucket list with the empty buckets after the
  first one left out.
\<close>

definition assigned :: "int list \<Rightarrow> int list \<Rightarrow> nat \<Rightarrow> nat list" where
  "assigned bs ls b = filter (\<lambda>i. bisect_call bs (ls ! i) = Inr (int b)) [0..<length ls]"

definition retained :: "int list \<Rightarrow> int list \<Rightarrow> nat list list" where
  "retained bs ls =
     assigned bs ls 0 # filter (\<lambda>b. b \<noteq> []) (map (assigned bs ls) [1..<length bs - 1])"

text \<open>
  What the library promises of \<^verbatim>\<open>torch.randperm(n, generator=g)\<close>: a permutation of
  \<open>0, \<dots>, n - 1\<close>, in any generator state.
\<close>

definition randperm_contract :: "(nat \<Rightarrow> 'g \<Rightarrow> nat list \<times> 'g) \<Rightarrow> bool" where
  "randperm_contract randperm \<longleftrightarrow> (\<forall>n g. mset (fst (randperm n g)) = mset [0..<n])"

section \<open>Properties of the embedding\<close>

subsection \<open>Indexing and \<^verbatim>\<open>_bisect\<close>\<close>

lemma getitem_nat: "i < length xs \<Longrightarrow> getitem xs (int i) = Inr (xs ! i)"
  by (simp add: getitem_def py_index_def)

lemma getitem_in_range: "0 \<le> i \<Longrightarrow> i < int (length xs) \<Longrightarrow> getitem xs i = Inr (xs ! nat i)"
  by (simp add: getitem_def py_index_def)

lemma bisect_stop: "\<not> lo < hi \<Longrightarrow> bisect bs x lo hi = Inr (- 1)"
  by (subst bisect.simps) simp

lemma bisect_step:
  assumes "lo < hi" "0 \<le> lo" "hi \<le> int (length bs) - 1"
  shows "bisect bs x lo hi =
     (if bs ! nat ((hi + lo) div 2) < x then
        if x \<le> bs ! nat ((hi + lo) div 2 + 1) then Inr ((hi + lo) div 2)
        else bisect bs x ((hi + lo) div 2 + 1) hi
      else bisect bs x lo ((hi + lo) div 2))"
proof -
  have "getitem bs ((hi + lo) div 2) = Inr (bs ! nat ((hi + lo) div 2))"
    using assms by (intro getitem_in_range) auto
  moreover have "getitem bs ((hi + lo) div 2 + 1) = Inr (bs ! nat ((hi + lo) div 2 + 1))"
    using assms by (intro getitem_in_range) auto
  ultimately show ?thesis using assms(1)
    by (subst bisect.simps) (simp add: Let_def)
qed

lemma bisect_sound:
  "0 \<le> lo \<Longrightarrow> hi \<le> int (length bs) - 1 \<Longrightarrow>
   \<exists>r. bisect bs x lo hi = Inr r \<and>
     (if r = - 1 then \<not> lo < hi \<or> x \<le> bs ! nat lo \<or> bs ! nat hi < x
      else lo \<le> r \<and> r < hi \<and> bs ! nat r < x \<and> x \<le> bs ! nat (r + 1))"
proof (induction bs x lo hi rule: bisect.induct)
  case (1 bs x lo hi)
  show ?case
  proof (cases "lo < hi")
    case False
    then show ?thesis by (simp add: bisect_stop)
  next
    case True
    define mid where "mid = (hi + lo) div 2"
    have m: "lo \<le> mid" "mid < hi" using True by (auto simp: mid_def)
    have g0: "getitem bs mid = Inr (bs ! nat mid)"
      using m 1(3,4) by (intro getitem_in_range) auto
    have g1: "getitem bs (mid + 1) = Inr (bs ! nat (mid + 1))"
      using m 1(3,4) by (intro getitem_in_range) auto
    have step: "bisect bs x lo hi =
     (if bs ! nat mid < x then
        if x \<le> bs ! nat (mid + 1) then Inr mid else bisect bs x (mid + 1) hi
      else bisect bs x lo mid)"
      unfolding mid_def by (rule bisect_step [OF True 1(3,4)])
    show ?thesis
    proof (cases "bs ! nat mid < x")
      case lt: True
      show ?thesis
      proof (cases "x \<le> bs ! nat (mid + 1)")
        case True
        then show ?thesis using lt m 1(3) by (simp add: step)
      next
        case False
        have "\<exists>r. bisect bs x (mid + 1) hi = Inr r \<and>
          (if r = - 1 then \<not> mid + 1 < hi \<or> x \<le> bs ! nat (mid + 1) \<or> bs ! nat hi < x
           else mid + 1 \<le> r \<and> r < hi \<and> bs ! nat r < x \<and> x \<le> bs ! nat (r + 1))"
          using 1(1)[OF True mid_def g0 lt g1 False] m 1(3,4) by simp
        then obtain r where r: "bisect bs x (mid + 1) hi = Inr r"
          "r = - 1 \<Longrightarrow> \<not> mid + 1 < hi \<or> x \<le> bs ! nat (mid + 1) \<or> bs ! nat hi < x"
          "r \<noteq> - 1 \<Longrightarrow> mid + 1 \<le> r \<and> r < hi \<and> bs ! nat r < x \<and> x \<le> bs ! nat (r + 1)"
          by (auto split: if_splits)
        have "r = - 1 \<Longrightarrow> bs ! nat hi < x"
        proof -
          assume "r = - 1"
          from r(2)[OF this] False consider "\<not> mid + 1 < hi" | "bs ! nat hi < x" by auto
          then show ?thesis
          proof cases
            case 1
            then have "hi = mid + 1" using m by simp
            then show ?thesis using False by simp
          qed
        qed
        then show ?thesis using r(1,3) lt False m by (auto simp: step)
      qed
    next
      case False
      have "\<exists>r. bisect bs x lo mid = Inr r \<and>
          (if r = - 1 then \<not> lo < mid \<or> x \<le> bs ! nat lo \<or> bs ! nat mid < x
           else lo \<le> r \<and> r < mid \<and> bs ! nat r < x \<and> x \<le> bs ! nat (r + 1))"
        using 1(2)[OF True mid_def g0 False] m 1(3,4) by simp
      then obtain r where r: "bisect bs x lo mid = Inr r"
          "r = - 1 \<Longrightarrow> \<not> lo < mid \<or> x \<le> bs ! nat lo \<or> bs ! nat mid < x"
          "r \<noteq> - 1 \<Longrightarrow> lo \<le> r \<and> r < mid \<and> bs ! nat r < x \<and> x \<le> bs ! nat (r + 1)"
        by (auto split: if_splits)
      have "r = - 1 \<Longrightarrow> x \<le> bs ! nat lo"
      proof -
        assume "r = - 1"
        from r(2)[OF this] False consider "\<not> lo < mid" | "x \<le> bs ! nat lo" by auto
        then show ?thesis
        proof cases
          case 1
          then have "lo = mid" using m by simp
          then show ?thesis using False by simp
        qed
      qed
      then show ?thesis using r(1,3) False m by (auto simp: step)
    qed
  qed
qed

lemma bisect_call_sound:
  "\<exists>r. bisect_call bs x = Inr r \<and>
     (if r = - 1 then length bs \<le> 1 \<or> x \<le> bs ! 0 \<or> bs ! (length bs - 1) < x
      else 0 \<le> r \<and> r < int (length bs) - 1 \<and> bs ! nat r < x \<and> x \<le> bs ! nat (r + 1))"
proof -
  have n: "nat (int (length bs) - 1) = length bs - 1" by simp
  have e: "(\<not> 0 < int (length bs) - 1) = (length bs \<le> 1)" by auto
  obtain r where r: "bisect bs x 0 (int (length bs) - 1) = Inr r"
    "if r = - 1 then \<not> 0 < int (length bs) - 1 \<or> x \<le> bs ! nat 0
        \<or> bs ! nat (int (length bs) - 1) < x
     else 0 \<le> r \<and> r < int (length bs) - 1 \<and> bs ! nat r < x \<and> x \<le> bs ! nat (r + 1)"
    using bisect_sound [of 0 "int (length bs) - 1" bs x] by auto
  show ?thesis
    unfolding bisect_call_def using r unfolding n e
    by (intro exI [of _ r]) (auto split: if_splits)
qed

lemma strict_sorted_nth_less:
  "sorted_wrt (<) (bs :: int list) \<Longrightarrow> i < j \<Longrightarrow> j < length bs \<Longrightarrow> bs ! i < bs ! j"
  by (simp add: sorted_wrt_iff_nth_less)

lemma strict_sorted_nth_le:
  "sorted_wrt (<) (bs :: int list) \<Longrightarrow> i \<le> j \<Longrightarrow> j < length bs \<Longrightarrow> bs ! i \<le> bs ! j"
  using strict_sorted_nth_less [of bs i j] by (cases "i = j") auto

lemma interval_unique:
  assumes "sorted_wrt (<) (bs :: int list)" "Suc i < length bs" "Suc j < length bs"
    "bs ! i < x" "x \<le> bs ! Suc i" "bs ! j < x" "x \<le> bs ! Suc j"
  shows "i = j"
proof (rule ccontr)
  assume "i \<noteq> j"
  then consider "Suc i \<le> j" | "Suc j \<le> i" by linarith
  then show False
  proof cases
    case 1
    then have "bs ! Suc i \<le> bs ! j" using assms(1,3) by (intro strict_sorted_nth_le) auto
    then show False using assms by linarith
  next
    case 2
    then have "bs ! Suc j \<le> bs ! i" using assms(1,2) by (intro strict_sorted_nth_le) auto
    then show False using assms by linarith
  qed
qed

lemma bisect_call_complete:
  assumes "sorted_wrt (<) bs" "Suc i < length bs" "bs ! i < x" "x \<le> bs ! Suc i"
  shows "bisect_call bs x = Inr (int i)"
proof -
  obtain r where r: "bisect_call bs x = Inr r"
    "r = - 1 \<Longrightarrow> length bs \<le> 1 \<or> x \<le> bs ! 0 \<or> bs ! (length bs - 1) < x"
    "r \<noteq> - 1 \<Longrightarrow> 0 \<le> r \<and> r < int (length bs) - 1 \<and> bs ! nat r < x \<and> x \<le> bs ! nat (r + 1)"
    using bisect_call_sound [of bs x] by (auto split: if_splits)
  have "bs ! 0 \<le> bs ! i" using assms by (intro strict_sorted_nth_le) auto
  moreover have "bs ! Suc i \<le> bs ! (length bs - 1)" using assms by (intro strict_sorted_nth_le) auto
  ultimately have "r \<noteq> - 1" using r(2) assms by force
  from r(3)[OF this] have b: "0 \<le> r" "Suc (nat r) < length bs" "bs ! nat r < x" "x \<le> bs ! Suc (nat r)"
    by (auto simp: nat_add_distrib)
  have "nat r = i" using interval_unique [OF assms(1) b(2) assms(2) b(3,4) assms(3,4)] .
  then show ?thesis using r(1) b(1) by auto
qed

lemma bisect_call_range:
  "\<exists>r. bisect_call bs x = Inr r \<and> (r = - 1 \<or> (0 \<le> r \<and> r < int (length bs) - 1))"
  using bisect_call_sound [of bs x] by (auto split: if_splits)

subsection \<open>The three loops of \<^verbatim>\<open>_create_buckets\<close>, and \<^verbatim>\<open>__init__\<close>\<close>

lemma py_index_nat: "0 \<le> i \<Longrightarrow> i < int n \<Longrightarrow> py_index n i = Some (nat i)"
  by (simp add: py_index_def)

text \<open>The first loop sorts the items into the buckets by the result of \<open>bisect_call\<close>.\<close>

lemma fill_buckets_eq:
  "length bk = nat (int (length bs) - 1) \<Longrightarrow> \<forall>i\<in>set is. i < length ls \<Longrightarrow>
   fill_buckets bs ls is bk =
     Inr (map (\<lambda>b. bk ! b @ filter (\<lambda>i. bisect_call bs (ls ! i) = Inr (int b)) is)
            [0..<length bk])"
proof (induction "is" arbitrary: bk)
  case Nil
  show ?case by (simp add: map_nth)
next
  case (Cons i "is")
  have g: "getitem ls (int i) = Inr (ls ! i)" using Cons.prems by (simp add: getitem_nat)
  obtain r where r: "bisect_call bs (ls ! i) = Inr r" "r = - 1 \<or> (0 \<le> r \<and> r < int (length bs) - 1)"
    using bisect_call_range by blast
  show ?case
  proof (cases "r = - 1")
    case True
    have "\<And>b. Inr r \<noteq> (Inr (int b) :: error + int)" using True by simp
    then show ?thesis using Cons g r(1) True by simp
  next
    case False
    then have rr: "0 \<le> r" "nat r < length bk" using r(2) Cons.prems by auto
    then have p: "py_index (length bk) r = Some (nat r)" by (simp add: py_index_nat)
    let ?bk = "bk[nat r := bk ! nat r @ [i]]"
    have "fill_buckets bs ls is ?bk =
       Inr (map (\<lambda>b. ?bk ! b @ filter (\<lambda>i. bisect_call bs (ls ! i) = Inr (int b)) is)
            [0..<length ?bk])"
      using Cons.prems by (intro Cons.IH) auto
    moreover have "map (\<lambda>b. ?bk ! b @ filter (\<lambda>i. bisect_call bs (ls ! i) = Inr (int b)) is)
            [0..<length ?bk]
       = map (\<lambda>b. bk ! b @ filter (\<lambda>i. bisect_call bs (ls ! i) = Inr (int b)) (i # is))
            [0..<length bk]"
      using rr r(1) by (auto simp: nth_list_update)
    ultimately show ?thesis using g r(1) False p by simp
  qed
qed

lemma fill_buckets_replicate:
  "fill_buckets bs ls [0..<length ls] (replicate (nat (int (length bs) - 1)) []) =
     Inr (map (assigned bs ls) [0..<length bs - 1])"
proof -
  have "nat (int (length bs) - 1) = length bs - 1" by simp
  then show ?thesis
    by (subst fill_buckets_eq) (auto simp del: replicate.simps simp: assigned_def)
qed

text \<open>
  The second loop keeps bucket 0 whatever it holds and drops the empty ones among the
  others; the boundary list keeps one entry more than the bucket list.
\<close>

lemma pop_nat: "i < length xs \<Longrightarrow> pop xs (int i) = Inr (take i xs @ drop (Suc i) xs)"
  by (simp add: pop_def py_index_def)

lemma drop_empty_append:
  "pre \<noteq> [] \<Longrightarrow> length bs = length (pre @ suf) + 1 \<Longrightarrow>
   \<exists>bs'. drop_empty (rev [1..<length pre]) (pre @ suf, bs)
            = Inr (hd pre # filter (\<lambda>b. b \<noteq> []) (tl pre) @ suf, bs')
        \<and> length bs' = length (hd pre # filter (\<lambda>b. b \<noteq> []) (tl pre) @ suf) + 1"
proof (induction pre arbitrary: suf bs rule: rev_induct)
  case Nil
  then show ?case by simp
next
  case (snoc b pre)
  show ?case
  proof (cases "pre = []")
    case True
    then show ?thesis using snoc.prems by simp
  next
    case False
    let ?m = "length pre"
    have m: "1 \<le> ?m" using False by (cases pre) auto
    have idx: "rev [1..<length (pre @ [b])] = ?m # rev [1..<?m]" using m by simp
    have g: "getitem ((pre @ [b]) @ suf) (int ?m) = Inr b"
      by (subst getitem_nat) (auto simp: nth_append)
    have hdtl: "hd (pre @ [b]) = hd pre" "tl (pre @ [b]) = tl pre @ [b]" using False by auto
    show ?thesis
    proof (cases "b = []")
      case True
      have p1: "pop ((pre @ [b]) @ suf) (int ?m) = Inr (pre @ suf)"
        by (subst pop_nat) auto
      have p2: "pop bs (int ?m + 1) = Inr (take (Suc ?m) bs @ drop (Suc (Suc ?m)) bs)"
        using pop_nat [of "Suc ?m" bs] snoc.prems(2) by (simp add: add.commute)
      have "length (take (Suc ?m) bs @ drop (Suc (Suc ?m)) bs) = length (pre @ suf) + 1"
        using snoc.prems(2) by auto
      from snoc.IH [OF False this] True g p1 p2 show ?thesis
        unfolding idx hdtl by simp
    next
      case nonempty: False
      have "length bs = length (pre @ (b # suf)) + 1" using snoc.prems(2) by simp
      from snoc.IH [OF False this] nonempty g show ?thesis
        unfolding idx hdtl by simp
    qed
  qed
qed

lemma drop_empty_eq:
  "length bs = length bk + 1 \<Longrightarrow> bk \<noteq> [] \<Longrightarrow>
   \<exists>bs'. drop_empty (rev [1..<length bk]) (bk, bs)
            = Inr (hd bk # filter (\<lambda>b. b \<noteq> []) (tl bk), bs')
        \<and> length bs' = length (hd bk # filter (\<lambda>b. b \<noteq> []) (tl bk)) + 1"
  using drop_empty_append [of bk bs "[]"] by simp

text \<open>The third loop.\<close>

lemma count_samples_zero: "R * B = 0 \<Longrightarrow> bk \<noteq> [] \<Longrightarrow> count_samples R B bk = Inl ZeroDivisionError"
  by (cases bk) (simp_all add: Let_def)

lemma count_samples_eq:
  "R * B \<noteq> 0 \<Longrightarrow>
   count_samples R B bk =
     Inr (map (\<lambda>b. int (length b) + (R * B - int (length b) mod (R * B)) mod (R * B)) bk)"
  by (induction bk) (simp_all add: Let_def)

lemma create_buckets_small:
  assumes "length (boundaries s) \<le> 1"
  shows "create_buckets s = Inr (s, [], [])"
proof -
  have "length (boundaries s) - 1 = 0" using assms by simp
  then show ?thesis
    unfolding create_buckets_def fill_buckets_replicate by simp
qed

lemma drop_empty_assigned:
  assumes "2 \<le> length bs"
  shows "\<exists>bs'. drop_empty (rev [1..<length (map (assigned bs ls) [0..<length bs - 1])])
                 (map (assigned bs ls) [0..<length bs - 1], bs) = Inr (retained bs ls, bs')
       \<and> length bs' = length (retained bs ls) + 1"
proof -
  let ?fb = "map (assigned bs ls) [0..<length bs - 1]"
  have up: "[0..<length bs - 1] = 0 # [1..<length bs - 1]"
    using assms by (simp add: upt_conv_Cons)
  have ne: "?fb \<noteq> []" using assms by simp
  have hd: "hd ?fb = assigned bs ls 0" by (subst up) simp
  have tl: "tl ?fb = map (assigned bs ls) [1..<length bs - 1]" by (subst up) simp
  have len: "length bs = length ?fb + 1" using assms by simp
  from drop_empty_eq [OF len ne] show ?thesis
    unfolding hd tl retained_def by simp
qed

lemma create_buckets_zero:
  assumes "2 \<le> length (boundaries s)" "num_replicas s * batch_size s = 0"
  shows "create_buckets s = Inl ZeroDivisionError"
proof -
  obtain bs' where "drop_empty
      (rev [1..<length (map (assigned (boundaries s) (lengths s)) [0..<length (boundaries s) - 1])])
      (map (assigned (boundaries s) (lengths s)) [0..<length (boundaries s) - 1], boundaries s)
         = Inr (retained (boundaries s) (lengths s), bs')"
    using drop_empty_assigned [OF assms(1)] by blast
  moreover have "retained (boundaries s) (lengths s) \<noteq> []" by (simp add: retained_def)
  ultimately show ?thesis using assms(2)
    unfolding create_buckets_def fill_buckets_replicate
    by (simp add: count_samples_zero)
qed

lemma create_buckets_ok:
  assumes "2 \<le> length (boundaries s)" "num_replicas s * batch_size s \<noteq> 0"
  shows "\<exists>bs'. create_buckets s =
       Inr (s\<lparr>boundaries := bs'\<rparr>, retained (boundaries s) (lengths s),
            map (\<lambda>b. int (length b) + (num_replicas s * batch_size s
                        - int (length b) mod (num_replicas s * batch_size s))
                      mod (num_replicas s * batch_size s)) (retained (boundaries s) (lengths s)))
     \<and> length bs' = length (retained (boundaries s) (lengths s)) + 1"
proof -
  obtain bs' where b: "drop_empty
      (rev [1..<length (map (assigned (boundaries s) (lengths s)) [0..<length (boundaries s) - 1])])
      (map (assigned (boundaries s) (lengths s)) [0..<length (boundaries s) - 1], boundaries s)
         = Inr (retained (boundaries s) (lengths s), bs')"
     "length bs' = length (retained (boundaries s) (lengths s)) + 1"
    using drop_empty_assigned [OF assms(1)] by blast
  have "create_buckets s =
       Inr (s\<lparr>boundaries := bs'\<rparr>, retained (boundaries s) (lengths s),
            map (\<lambda>b. int (length b) + (num_replicas s * batch_size s
                        - int (length b) mod (num_replicas s * batch_size s))
                      mod (num_replicas s * batch_size s)) (retained (boundaries s) (lengths s)))"
    unfolding create_buckets_def fill_buckets_replicate using b(1) assms(2)
    by (simp add: count_samples_eq)
  then show ?thesis using b(2) by blast
qed

lemma init_rank: "rk \<ge> R \<or> rk < 0 \<Longrightarrow> init ls B bs R rk sh = Inl ValueError"
  by (simp add: init_def)

lemma init_Inr_rank: "init ls B bs R rk sh = Inr s \<Longrightarrow> 0 \<le> rk \<and> rk < R"
  using init_rank [of R rk ls B bs sh] by (cases "rk \<ge> R \<or> rk < 0") auto

lemma init_small:
  assumes "length bs \<le> 1" "0 \<le> rk" "rk < R"
  shows "init ls B bs R rk sh =
     Inr \<lparr>lengths = ls, batch_size = B, boundaries = bs, num_replicas = R, rank = rk,
          shuffle = sh, epoch = 0, buckets = [], num_samples_per_bucket = [],
          total_size = 0, num_samples = 0, batches = None\<rparr>"
  using assms by (simp add: init_def create_buckets_small)

lemma init_zero:
  assumes "2 \<le> length bs" "R * B = 0" "0 \<le> rk" "rk < R"
  shows "init ls B bs R rk sh = Inl ZeroDivisionError"
  using assms by (simp add: init_def create_buckets_zero)

lemma init_ok:
  assumes "2 \<le> length bs" "R * B \<noteq> 0" "0 \<le> rk" "rk < R"
  shows "\<exists>bs'. init ls B bs R rk sh =
       Inr \<lparr>lengths = ls, batch_size = B, boundaries = bs', num_replicas = R, rank = rk,
            shuffle = sh, epoch = 0, buckets = retained bs ls,
            num_samples_per_bucket =
              map (\<lambda>b. int (length b) + (R * B - int (length b) mod (R * B)) mod (R * B))
                (retained bs ls),
            total_size = sum_list
              (map (\<lambda>b. int (length b) + (R * B - int (length b) mod (R * B)) mod (R * B))
                (retained bs ls)),
            num_samples = sum_list
              (map (\<lambda>b. int (length b) + (R * B - int (length b) mod (R * B)) mod (R * B))
                (retained bs ls)) div R,
            batches = None\<rparr>
     \<and> length bs' = length (retained bs ls) + 1"
proof -
  let ?s = "\<lparr>lengths = ls, batch_size = B, boundaries = bs,
               num_replicas = R, rank = rk, shuffle = sh, epoch = 0,
               buckets = [], num_samples_per_bucket = [], total_size = 0, num_samples = 0,
               batches = None\<rparr>"
  have "2 \<le> length (boundaries ?s)" "num_replicas ?s * batch_size ?s \<noteq> 0"
    using assms by simp_all
  from create_buckets_ok [OF this] obtain bs' where
    "create_buckets ?s = Inr (?s\<lparr>boundaries := bs'\<rparr>, retained bs ls,
        map (\<lambda>b. int (length b) + (R * B - int (length b) mod (R * B)) mod (R * B))
                (retained bs ls))"
    "length bs' = length (retained bs ls) + 1"
    by auto
  then show ?thesis using assms(2,3,4)
    by (intro exI [of _ bs']) (simp add: init_def)
qed

text \<open>Every case of the constructor at once: what a successful construction leaves.\<close>

lemma init_fields:
  assumes "init ls B bs R rk sh = Inr s"
  shows "lengths s = ls" "batch_size s = B" "num_replicas s = R" "rank s = rk"
    "shuffle s = sh" "epoch s = 0" "R \<noteq> 0" "batches s = None"
    "total_size s = sum_list (num_samples_per_bucket s)"
    "num_samples s = total_size s div R"
    "count_samples R B (buckets s) = Inr (num_samples_per_bucket s)"
proof -
  have rk: "0 \<le> rk" "rk < R" using init_Inr_rank [OF assms] by simp_all
  consider "length bs \<le> 1" | "2 \<le> length bs" "R * B = 0" | "2 \<le> length bs" "R * B \<noteq> 0"
    by linarith
  then have "lengths s = ls \<and> batch_size s = B \<and> num_replicas s = R \<and> rank s = rk
    \<and> shuffle s = sh \<and> epoch s = 0 \<and> R \<noteq> 0 \<and> batches s = None
    \<and> total_size s = sum_list (num_samples_per_bucket s)
    \<and> num_samples s = total_size s div R
    \<and> count_samples R B (buckets s) = Inr (num_samples_per_bucket s)"
  proof cases
    case 1
    have r: "R \<noteq> 0" using rk by simp
    have "s = \<lparr>lengths = ls, batch_size = B, boundaries = bs, num_replicas = R, rank = rk,
                shuffle = sh, epoch = 0, buckets = [], num_samples_per_bucket = [],
                total_size = 0, num_samples = 0, batches = None\<rparr>"
      using assms init_small [OF 1 rk, of ls B sh] by simp
    then show ?thesis using r by simp
  next
    case 2
    then show ?thesis using assms init_zero [OF 2 rk, of ls sh] by simp
  next
    case 3
    from init_ok [OF this rk, of ls sh] assms obtain bs' where
      "s = \<lparr>lengths = ls, batch_size = B, boundaries = bs', num_replicas = R, rank = rk,
            shuffle = sh, epoch = 0, buckets = retained bs ls,
            num_samples_per_bucket =
              map (\<lambda>b. int (length b) + (R * B - int (length b) mod (R * B)) mod (R * B))
                (retained bs ls),
            total_size = sum_list
              (map (\<lambda>b. int (length b) + (R * B - int (length b) mod (R * B)) mod (R * B))
                (retained bs ls)),
            num_samples = sum_list
              (map (\<lambda>b. int (length b) + (R * B - int (length b) mod (R * B)) mod (R * B))
                (retained bs ls)) div R,
            batches = None\<rparr>"
      by auto
    moreover have "R \<noteq> 0" using 3 by auto
    ultimately show ?thesis using 3(2) count_samples_eq [OF 3(2), of "retained bs ls"] by simp
  qed
  then show "lengths s = ls" "batch_size s = B" "num_replicas s = R" "rank s = rk"
    "shuffle s = sh" "epoch s = 0" "R \<noteq> 0" "batches s = None"
    "total_size s = sum_list (num_samples_per_bucket s)"
    "num_samples s = total_size s div R"
    "count_samples R B (buckets s) = Inr (num_samples_per_bucket s)"
    by blast+
qed

lemma init_buckets:
  assumes "init ls B bs R rk sh = Inr s"
  shows "buckets s = (if length bs \<le> 1 then [] else retained bs ls)"
proof (cases "length bs \<le> 1")
  case True
  have rk: "0 \<le> rk" "rk < R" using init_Inr_rank [OF assms] by simp_all
  from init_small [OF True rk, of ls B sh] assms True show ?thesis by auto
next
  case False
  have rk: "0 \<le> rk" "rk < R" using init_Inr_rank [OF assms] by simp_all
  from False have 2: "2 \<le> length bs" by simp
  have "R * B \<noteq> 0" using assms init_zero [OF 2 _ rk, of B ls sh] by auto
  from init_ok [OF 2 this rk, of ls sh] assms False show ?thesis by auto
qed

lemma init_boundaries_length:
  assumes "init ls B bs R rk sh = Inr s" "bs \<noteq> []"
  shows "length (boundaries s) = length (buckets s) + 1"
proof (cases "length bs \<le> 1")
  case True
  have rk: "0 \<le> rk" "rk < R" using init_Inr_rank [OF assms(1)] by simp_all
  from True have "length bs = 1" using assms(2) by (cases bs) auto
  then show ?thesis using assms(1) init_small [OF True rk, of ls B sh] by auto
next
  case False
  have rk: "0 \<le> rk" "rk < R" using init_Inr_rank [OF assms(1)] by simp_all
  from False have 2: "2 \<le> length bs" by simp
  have "R * B \<noteq> 0" using assms(1) init_zero [OF 2 _ rk, of B ls sh] by auto
  from init_ok [OF 2 this rk, of ls sh] assms(1) False show ?thesis by auto
qed

subsection \<open>Padding arithmetic, repetition and slices\<close>

lemma pad_props:
  fixes d n :: int
  assumes "0 < d"
  shows "n \<le> n + (d - n mod d) mod d"
    and "(n + (d - n mod d) mod d) mod d = 0"
    and "n + (d - n mod d) mod d < n + d"
proof -
  show "n \<le> n + (d - n mod d) mod d" using assms by simp
  show "n + (d - n mod d) mod d < n + d" using assms by simp
  have "(n + (d - n mod d) mod d) mod d = (n mod d + (d - n mod d)) mod d"
    by (simp add: mod_add_eq mod_add_right_eq)
  also have "\<dots> = 0" by simp
  finally show "(n + (d - n mod d) mod d) mod d = 0" .
qed

lemma length_list_mul: "length (list_mul xs n) = nat n * length xs"
  by (simp add: list_mul_def length_concat sum_list_replicate)

lemma set_list_mul: "set (list_mul xs n) \<subseteq> set xs"
  by (auto simp: list_mul_def)

lemma set_slice_to: "set (slice_to xs k) \<subseteq> set xs"
  by (simp add: slice_to_def set_take_subset)

lemma set_slice: "set (slice xs lo hi) \<subseteq> set xs"
  unfolding slice_def Let_def
  by (meson set_take_subset set_drop_subset subset_trans)

lemma length_slice_to: "0 \<le> k \<Longrightarrow> k \<le> int (length xs) \<Longrightarrow> length (slice_to xs k) = nat k"
  by (simp add: slice_to_def clip_bound_def)

lemma extend_ids_ok:
  assumes "ids \<noteq> []" "int (length ids) \<le> ns"
  shows "\<exists>ext. extend_ids ids (int (length ids)) ns = Inr ext \<and> length ext = nat ns
           \<and> set ext = set ids"
proof -
  let ?L = "int (length ids)"
  let ?rem = "ns - ?L"
  let ?ext = "ids @ list_mul ids (?rem div ?L) @ slice_to ids (?rem mod ?L)"
  have L: "0 < ?L" using assms(1) by simp
  have rem: "0 \<le> ?rem" using assms(2) by simp
  have e: "extend_ids ids ?L ns = Inr ?ext"
    using L by (simp add: extend_ids_def Let_def)
  have m: "0 \<le> ?rem mod ?L" "?rem mod ?L < ?L" using L by simp_all
  have q: "0 \<le> ?rem div ?L" using L rem by (simp add: pos_imp_zdiv_nonneg_iff)
  have l1: "int (length (list_mul ids (?rem div ?L))) = (?rem div ?L) * ?L"
    using q by (simp add: length_list_mul)
  have "length (slice_to ids (?rem mod ?L)) = nat (?rem mod ?L)"
    using m by (intro length_slice_to) simp_all
  then have l2: "int (length (slice_to ids (?rem mod ?L))) = ?rem mod ?L"
    using m(1) by linarith
  have "int (length ?ext) = ?L + (?rem div ?L) * ?L + ?rem mod ?L"
    by (simp only: length_append of_nat_add l1 l2 add.assoc)
  also have "\<dots> = ?L + (?rem div ?L * ?L + ?rem mod ?L)" by (simp only: add.assoc)
  also have "?rem div ?L * ?L + ?rem mod ?L = ?rem" by (rule div_mult_mod_eq)
  finally have "int (length ?ext) = ns" by simp
  then have len: "length ?ext = nat ns" by linarith
  have "set ?ext = set ids"
    using set_list_mul [of ids "?rem div ?L"] set_slice_to [of ids "?rem mod ?L"] by auto
  then show ?thesis using e len by blast
qed

lemma extend_ids_empty: "extend_ids ids 0 ns = Inl ZeroDivisionError"
  by (simp add: extend_ids_def)

lemma slice_step_rank:
  assumes "0 \<le> rk" "rk < R" "R dvd int (length xs)"
  shows "slice_step xs rk R =
     Inr (map (\<lambda>k. xs ! (nat rk + k * nat R)) [0..<length xs div nat R])"
proof (cases "xs = []")
  case True
  then show ?thesis using assms by (simp add: slice_step_def Let_def)
next
  case False
  let ?n = "int (length xs)"
  have R: "0 < R" using assms by simp
  have "R \<le> ?n" using assms(3) False R by (intro zdvd_imp_le) auto
  then have s: "min rk ?n = rk" using assms by simp
  obtain q where q: "?n = R * q" using assms(3) by (auto simp: dvd_def)
  have "(?n - rk + R - 1) div R = (R - 1 - rk + q * R) div R"
    by (simp add: q algebra_simps)
  also have "\<dots> = (R - 1 - rk) div R + q" using R by simp
  also have "(R - 1 - rk) div R = 0" using assms by (intro div_pos_pos_trivial) auto
  finally have "(?n - rk + R - 1) div R = ?n div R" using R q by simp
  moreover have "nat (?n div R) = length xs div nat R" using R
    by (simp add: nat_div_distrib)
  ultimately show ?thesis using assms R s
    by (simp add: slice_step_def Let_def)
qed

lemma getitems_ok: "\<forall>i\<in>set is. i < length xs \<Longrightarrow> getitems xs is = Inr (map ((!) xs) is)"
  by (induction "is") (simp_all add: getitem_nat)

lemma make_batches_ok:
  "\<forall>i\<in>set ids. i < length bucket \<Longrightarrow>
   \<exists>bt. make_batches bucket ids B js = Inr bt \<and> length bt = length js
     \<and> (\<forall>b\<in>set bt. set b \<subseteq> set bucket)"
proof (induction js)
  case Nil
  then show ?case by simp
next
  case (Cons j js)
  let ?sl = "slice ids (int j * B) ((int j + 1) * B)"
  have "\<forall>i\<in>set ?sl. i < length bucket" using Cons.prems set_slice [of ids] by blast
  then have g: "getitems bucket ?sl = Inr (map ((!) bucket) ?sl)"
    "set (map ((!) bucket) ?sl) \<subseteq> set bucket"
    by (auto simp: getitems_ok)
  from Cons.IH [OF Cons.prems] obtain bt where
    "make_batches bucket ids B js = Inr bt" "length bt = length js"
    "\<forall>b\<in>set bt. set b \<subseteq> set bucket" by blast
  then show ?case using g by simp
qed

subsection \<open>\<^verbatim>\<open>__iter__\<close>\<close>

lemma randperm_length: "randperm_contract rp \<Longrightarrow> length (fst (rp n g)) = n"
  unfolding randperm_contract_def by (metis size_mset length_upt diff_zero)

lemma randperm_set: "randperm_contract rp \<Longrightarrow> set (fst (rp n g)) = {0..<n}"
  unfolding randperm_contract_def by (metis set_mset_mset set_upt)

lemma draw_indices_ok:
  "randperm_contract rp \<Longrightarrow>
   list_all2 (\<lambda>b p. length p = length b \<and> (\<forall>x\<in>set p. x < length b)) bk
     (fst (draw_indices rp bk g))"
proof (induction bk arbitrary: g)
  case Nil
  then show ?case by simp
next
  case (Cons b bk)
  obtain p g' where p: "rp (length b) g = (p, g')" by (cases "rp (length b) g")
  obtain ps g'' where ps: "draw_indices rp bk g' = (ps, g'')" by (cases "draw_indices rp bk g'")
  have "length p = length b" "set p = {0..<length b}"
    using randperm_length [OF Cons.prems, of "length b" g]
      randperm_set [OF Cons.prems, of "length b" g] p by simp_all
  moreover have "list_all2 (\<lambda>b p. length p = length b \<and> (\<forall>x\<in>set p. x < length b)) bk ps"
    using Cons.IH [OF Cons.prems, of g'] ps by simp
  ultimately show ?case using p ps by simp
qed

lemma range_indices_ok:
  "list_all2 (\<lambda>b p. length p = length b \<and> (\<forall>x\<in>set p. x < length b)) bk
     (map (\<lambda>bucket. [0..<length bucket]) bk)"
  by (induction bk) simp_all

lemma bucket_batches_ok:
  assumes "bucket \<noteq> []" "length ids = length bucket" "\<forall>i\<in>set ids. i < length bucket"
    "int (length bucket) \<le> ns" "R * B dvd ns" "0 < B" "0 \<le> rk" "rk < R"
  shows "\<exists>bt. bucket_batches rk R B bucket ids ns = Inr bt \<and> int (length bt) = ns div (R * B)
     \<and> (\<forall>b\<in>set bt. set b \<subseteq> set bucket)"
proof -
  have R: "0 < R" using assms by simp
  have ids: "ids \<noteq> []" "int (length ids) \<le> ns" using assms by auto
  from extend_ids_ok [OF ids] obtain ext where
    ext: "extend_ids ids (int (length bucket)) ns = Inr ext" "length ext = nat ns" "set ext = set ids"
    using assms(2) by auto
  have ns: "0 \<le> ns" using assms(4) by simp
  have "R dvd ns" using assms(5) by (rule dvd_mult_left)
  then have "R dvd int (length ext)" using ext(2) ns by simp
  from slice_step_rank [OF assms(7,8) this] obtain sub where
    sub: "slice_step ext rk R = Inr sub" "length sub = length ext div nat R"
      "sub = map (\<lambda>k. ext ! (nat rk + k * nat R)) [0..<length ext div nat R]"
    by simp
  have "\<forall>k < length ext div nat R. nat rk + k * nat R < length ext"
  proof (intro allI impI)
    fix k assume k: "k < length ext div nat R"
    have "nat rk < nat R" using assms(7,8) by simp
    then have "nat rk + k * nat R < Suc k * nat R" by simp
    also have "\<dots> \<le> (length ext div nat R) * nat R" using k by (intro mult_le_mono1) simp
    also have "\<dots> \<le> length ext" by simp
    finally show "nat rk + k * nat R < length ext" .
  qed
  then have "set sub \<subseteq> set ext" unfolding sub(3) by auto
  then have "\<forall>i\<in>set sub. i < length bucket" using ext(3) assms(3) by blast
  from make_batches_ok [OF this, of B "[0..<nat (int (length sub) div B)]"] obtain bt where
    bt: "make_batches bucket sub B [0..<nat (int (length sub) div B)] = Inr bt"
      "length bt = nat (int (length sub) div B)" "\<forall>b\<in>set bt. set b \<subseteq> set bucket"
    by auto
  have "int (length sub) = ns div R" using sub(2) ext(2) ns R
    by (simp add: zdiv_int)
  then have "int (length sub) div B = ns div (R * B)" using assms(6) R
    by (simp add: zdiv_zmult2_eq)
  moreover have "0 \<le> ns div (R * B)" using ns R assms(6)
    by (simp add: pos_imp_zdiv_nonneg_iff)
  ultimately have "int (length bt) = ns div (R * B)" using bt(2) by simp
  then show ?thesis using ext(1) sub(1) bt(1,3) assms(6)
    by (simp add: bucket_batches_def)
qed

lemma batch_loop_ok:
  assumes "list_all2 (\<lambda>b p. length p = length b \<and> (\<forall>x\<in>set p. x < length b)) (buckets s) indices"
    and "length (num_samples_per_bucket s) = length (buckets s)"
    and "\<forall>i<length (buckets s). buckets s ! i \<noteq> []
           \<and> int (length (buckets s ! i)) \<le> num_samples_per_bucket s ! i
           \<and> num_replicas s * batch_size s dvd num_samples_per_bucket s ! i"
    and "0 < batch_size s" "0 \<le> rank s" "rank s < num_replicas s"
    and "\<forall>i\<in>set is. i < length (buckets s)"
  shows "\<exists>bt. batch_loop s indices is = Inr bt
     \<and> int (length bt) =
         sum_list (map (\<lambda>i. num_samples_per_bucket s ! i div (num_replicas s * batch_size s)) is)
     \<and> (\<forall>b\<in>set bt. \<exists>bucket\<in>set (buckets s). set b \<subseteq> set bucket)"
  using assms(7)
proof (induction "is")
  case Nil
  then show ?case by simp
next
  case (Cons i "is")
  have i: "i < length (buckets s)" using Cons.prems by simp
  have li: "length indices = length (buckets s)" using assms(1) by (simp add: list_all2_lengthD)
  have g1: "getitem (buckets s) (int i) = Inr (buckets s ! i)" using i by (simp add: getitem_nat)
  have g2: "getitem indices (int i) = Inr (indices ! i)" using i li by (simp add: getitem_nat)
  have g3: "getitem (num_samples_per_bucket s) (int i) = Inr (num_samples_per_bucket s ! i)"
    using i assms(2) by (simp add: getitem_nat)
  have p: "length (indices ! i) = length (buckets s ! i)"
    "\<forall>x\<in>set (indices ! i). x < length (buckets s ! i)"
    using list_all2_nthD [OF assms(1) i] by simp_all
  have c: "buckets s ! i \<noteq> []" "int (length (buckets s ! i)) \<le> num_samples_per_bucket s ! i"
    "num_replicas s * batch_size s dvd num_samples_per_bucket s ! i"
    using assms(3) i by simp_all
  from bucket_batches_ok [OF c(1) p c(2,3) assms(4,5,6)] obtain bt where
    bt: "bucket_batches (rank s) (num_replicas s) (batch_size s) (buckets s ! i) (indices ! i)
           (num_samples_per_bucket s ! i) = Inr bt"
      "int (length bt) = num_samples_per_bucket s ! i div (num_replicas s * batch_size s)"
      "\<forall>b\<in>set bt. set b \<subseteq> set (buckets s ! i)"
    by blast
  have "\<forall>i\<in>set is. i < length (buckets s)" using Cons.prems by simp
  from Cons.IH [OF this] obtain rest where
    rest: "batch_loop s indices is = Inr rest"
      "int (length rest) =
         sum_list (map (\<lambda>i. num_samples_per_bucket s ! i div (num_replicas s * batch_size s)) is)"
      "\<forall>b\<in>set rest. \<exists>bucket\<in>set (buckets s). set b \<subseteq> set bucket"
    by blast
  have "\<forall>b\<in>set bt. \<exists>bucket\<in>set (buckets s). set b \<subseteq> set bucket"
    using bt(3) i nth_mem by blast
  then have "\<forall>b\<in>set (bt @ rest). \<exists>bucket\<in>set (buckets s). set b \<subseteq> set bucket"
    using rest(3) by auto
  moreover have "batch_loop s indices (i # is) = Inr (bt @ rest)"
    using g1 g2 g3 bt(1) rest(1) by simp
  moreover have "int (length (bt @ rest)) =
      sum_list (map (\<lambda>i. num_samples_per_bucket s ! i div (num_replicas s * batch_size s)) (i # is))"
    using bt(2) rest(2) by simp
  ultimately show ?case by blast
qed

lemma sum_list_div_dvd:
  fixes R B :: int
  assumes "0 < R" "0 < B" "\<forall>x\<in>set ns. R * B dvd x"
  shows "sum_list (map (\<lambda>x. x div (R * B)) ns) * B = sum_list ns div R \<and> R dvd sum_list ns"
  using assms(3)
proof (induction ns)
  case Nil
  then show ?case by simp
next
  case (Cons x ns)
  then obtain q where q: "x = R * B * q" by (auto simp: dvd_def)
  have x1: "x div (R * B) = q" using assms(1,2) q by simp
  have x2: "x div R = B * q" using assms(1) q by (simp add: mult.assoc)
  have x3: "R dvd x" using q by simp
  have ih: "sum_list (map (\<lambda>x. x div (R * B)) ns) * B = sum_list ns div R" "R dvd sum_list ns"
    using Cons by simp_all
  have "(x + sum_list ns) div R = x div R + sum_list ns div R"
    using x3 by (rule div_plus_div_distrib_dvd_left)
  then show ?case using x1 x2 x3 ih by (simp add: algebra_simps)
qed

lemma count_samples_props:
  assumes "count_samples R B bk = Inr ns" "0 < R * B"
  shows "length ns = length bk"
    and "\<forall>i<length bk. int (length (bk ! i)) \<le> ns ! i \<and> R * B dvd ns ! i
           \<and> ns ! i < int (length (bk ! i)) + R * B
           \<and> ns ! i = int (length (bk ! i)) + (R * B - int (length (bk ! i)) mod (R * B)) mod (R * B)"
proof -
  have ns: "ns = map (\<lambda>b. int (length b) + (R * B - int (length b) mod (R * B)) mod (R * B)) bk"
  proof -
    have "R * B \<noteq> 0" using assms(2) by linarith
    from count_samples_eq [OF this, of bk] assms(1) show ?thesis by simp
  qed
  show "length ns = length bk" unfolding ns by (rule length_map)
  show "\<forall>i<length bk. int (length (bk ! i)) \<le> ns ! i \<and> R * B dvd ns ! i
           \<and> ns ! i < int (length (bk ! i)) + R * B
           \<and> ns ! i = int (length (bk ! i)) + (R * B - int (length (bk ! i)) mod (R * B)) mod (R * B)"
  proof (intro allI impI)
    fix i assume i: "i < length bk"
    define n where "n = int (length (bk ! i))"
    define d where "d = R * B"
    have e: "ns ! i = n + (d - n mod d) mod d"
      unfolding ns n_def d_def using i by (rule nth_map)
    have d: "0 < d" using assms(2) by (simp only: d_def)
    have "n \<le> ns ! i" "ns ! i mod d = 0" "ns ! i < n + d"
      unfolding e using pad_props [OF d, of n] by blast+
    then have "n \<le> ns ! i \<and> d dvd ns ! i \<and> ns ! i < n + d \<and> ns ! i = n + (d - n mod d) mod d"
      using e by (simp only: dvd_eq_mod_eq_0) 
    then show "int (length (bk ! i)) \<le> ns ! i \<and> R * B dvd ns ! i
           \<and> ns ! i < int (length (bk ! i)) + R * B
           \<and> ns ! i = int (length (bk ! i)) + (R * B - int (length (bk ! i)) mod (R * B)) mod (R * B)"
      unfolding n_def d_def .
  qed
qed

lemma iter_unfold:
  assumes "(if shuffle s then draw_indices rp (buckets s) (ms (epoch s))
            else (map (\<lambda>bucket. [0..<length bucket]) (buckets s), ms (epoch s))) = (indices, g1)"
  shows "iter ms rp s =
     (case batch_loop s indices [0..<length (buckets s)] of
        Inl e \<Rightarrow> (Inl e, s)
      | Inr bt \<Rightarrow>
          (case (if shuffle s then getitems bt (fst (rp (length bt) g1)) else Inr bt) of
             Inl e \<Rightarrow> (Inl e, s)
           | Inr bt' \<Rightarrow>
               if int (length bt') * batch_size s = num_samples s
               then (Inr bt', s\<lparr>batches := Some bt'\<rparr>)
               else (Inl AssertionError, s\<lparr>batches := Some bt'\<rparr>)))"
  unfolding iter_def Let_def assms by (simp split: sum.splits)

lemma iter_ok:
  assumes "randperm_contract rp"
    and "length (num_samples_per_bucket s) = length (buckets s)"
    and "\<forall>i<length (buckets s). buckets s ! i \<noteq> []
           \<and> int (length (buckets s ! i)) \<le> num_samples_per_bucket s ! i
           \<and> num_replicas s * batch_size s dvd num_samples_per_bucket s ! i"
    and "0 < batch_size s" "0 \<le> rank s" "rank s < num_replicas s"
    and "num_samples s = sum_list (num_samples_per_bucket s) div num_replicas s"
  shows "\<exists>bt. iter ms rp s = (Inr bt, s\<lparr>batches := Some bt\<rparr>)
     \<and> int (length bt) * batch_size s = num_samples s
     \<and> (\<forall>b\<in>set bt. \<exists>bucket\<in>set (buckets s). set b \<subseteq> set bucket)"
proof -
  define ig where "ig = (if shuffle s then draw_indices rp (buckets s) (ms (epoch s))
                           else (map (\<lambda>bucket. [0..<length bucket]) (buckets s), ms (epoch s)))"
  obtain indices g1 where ig: "ig = (indices, g1)" by (cases ig)
  have "list_all2 (\<lambda>b p. length p = length b \<and> (\<forall>x\<in>set p. x < length b)) (buckets s) (fst ig)"
  proof (cases "shuffle s")
    case True
    then show ?thesis unfolding ig_def
      using draw_indices_ok [OF assms(1), of "buckets s" "ms (epoch s)"] by simp
  next
    case False
    then show ?thesis unfolding ig_def
      using range_indices_ok [of "buckets s"] by simp
  qed
  then have all2: "list_all2 (\<lambda>b p. length p = length b \<and> (\<forall>x\<in>set p. x < length b))
      (buckets s) indices"
    using ig by simp
  have "\<forall>i\<in>set [0..<length (buckets s)]. i < length (buckets s)" by simp
  from batch_loop_ok [OF all2 assms(2,3,4,5,6) this] obtain bt where
    bt: "batch_loop s indices [0..<length (buckets s)] = Inr bt"
      "int (length bt) = sum_list (map (\<lambda>i. num_samples_per_bucket s ! i
           div (num_replicas s * batch_size s)) [0..<length (buckets s)])"
      "\<forall>b\<in>set bt. \<exists>bucket\<in>set (buckets s). set b \<subseteq> set bucket"
    by blast
  have "map (\<lambda>i. num_samples_per_bucket s ! i div (num_replicas s * batch_size s))
          [0..<length (buckets s)]
      = map (\<lambda>x. x div (num_replicas s * batch_size s)) (num_samples_per_bucket s)"
    using assms(2) by (intro nth_equalityI) simp_all
  then have len: "int (length bt) =
      sum_list (map (\<lambda>x. x div (num_replicas s * batch_size s)) (num_samples_per_bucket s))"
    using bt(2) by simp
  have R: "0 < num_replicas s" using assms(5,6) by simp
  have "\<forall>x\<in>set (num_samples_per_bucket s). num_replicas s * batch_size s dvd x"
    using assms(2,3) by (auto simp: in_set_conv_nth)
  from sum_list_div_dvd [OF R assms(4) this] len assms(7)
  have count: "int (length bt) * batch_size s = num_samples s" by simp
  define bt' where "bt' = (if shuffle s then map ((!) bt) (fst (rp (length bt) g1)) else bt)"
  have "\<forall>i\<in>set (fst (rp (length bt) g1)). i < length bt"
    using randperm_set [OF assms(1), of "length bt" g1] by simp
  then have sh: "(if shuffle s then getitems bt (fst (rp (length bt) g1)) else Inr bt) = Inr bt'"
    unfolding bt'_def by (simp add: getitems_ok)
  have len': "length bt' = length bt"
    unfolding bt'_def using randperm_length [OF assms(1), of "length bt" g1] by simp
  have set': "set bt' \<subseteq> set bt"
    unfolding bt'_def using randperm_set [OF assms(1), of "length bt" g1] by auto
  have "iter ms rp s = (Inr bt', s\<lparr>batches := Some bt'\<rparr>)"
    using bt(1) sh count len'
    unfolding iter_unfold [of s rp ms indices g1, OF ig [unfolded ig_def]] by simp
  then show ?thesis using count len' set' bt(3) by (intro exI [of _ bt']) auto
qed

lemma draw_indices_length: "length (fst (draw_indices rp bk g)) = length bk"
proof (induction bk arbitrary: g)
  case Nil
  show ?case by simp
next
  case (Cons b bk)
  obtain p g' where p: "rp (length b) g = (p, g')" by (cases "rp (length b) g")
  obtain ps g'' where ps: "draw_indices rp bk g' = (ps, g'')" by (cases "draw_indices rp bk g'")
  have "length ps = length bk" using Cons [of g'] ps by simp
  then show ?case using p ps by simp
qed

lemma iter_first_empty:
  assumes "buckets s = [] # rest" "num_samples_per_bucket s \<noteq> []"
  shows "iter ms rp s = (Inl ZeroDivisionError, s)"
proof -
  define ig where "ig = (if shuffle s then draw_indices rp (buckets s) (ms (epoch s))
                           else (map (\<lambda>bucket. [0..<length bucket]) (buckets s), ms (epoch s)))"
  obtain indices g1 where ig: "ig = (indices, g1)" by (cases ig)
  have "length (fst ig) = length (buckets s)"
    unfolding ig_def by (simp add: draw_indices_length)
  then have "indices \<noteq> []" using ig assms(1) by auto
  then have g2: "getitem indices 0 = Inr (indices ! 0)"
    by (simp add: getitem_def py_index_def)
  have g1: "getitem (buckets s) 0 = Inr []"
    using assms(1) by (simp add: getitem_def py_index_def)
  have g3: "getitem (num_samples_per_bucket s) 0 = Inr (num_samples_per_bucket s ! 0)"
    using assms(2) by (simp add: getitem_def py_index_def)
  have "0 < length (buckets s)" using assms(1) by simp
  then have up: "[0..<length (buckets s)] = 0 # [1..<length (buckets s)]"
    by (subst upt_rec) simp
  have "batch_loop s indices [0..<length (buckets s)] = Inl ZeroDivisionError"
    unfolding up using g1 g2 g3 by (simp add: bucket_batches_def extend_ids_empty)
  then show ?thesis
    unfolding iter_unfold [of s rp ms indices g1, OF ig [unfolded ig_def]] by simp
qed

lemma batch_loop_fields:
  assumes "buckets s1 = buckets s2" "num_samples_per_bucket s1 = num_samples_per_bucket s2"
    "batch_size s1 = batch_size s2" "num_replicas s1 = num_replicas s2" "rank s1 = rank s2"
  shows "batch_loop s1 indices is = batch_loop s2 indices is"
  by (induction "is") (simp_all add: assms cong: sum.case_cong)

lemma iter_fields:
  assumes "buckets s1 = buckets s2" "num_samples_per_bucket s1 = num_samples_per_bucket s2"
    "num_samples s1 = num_samples s2" "batch_size s1 = batch_size s2"
    "num_replicas s1 = num_replicas s2" "rank s1 = rank s2" "shuffle s1 = shuffle s2"
    "epoch s1 = epoch s2"
  shows "fst (iter ms rp s1) = fst (iter ms rp s2)"
proof -
  define ig where "ig = (if shuffle s1 then draw_indices rp (buckets s1) (ms (epoch s1))
                           else (map (\<lambda>bucket. [0..<length bucket]) (buckets s1), ms (epoch s1)))"
  obtain indices g1 where ig: "ig = (indices, g1)" by (cases ig)
  have ig2: "(if shuffle s2 then draw_indices rp (buckets s2) (ms (epoch s2))
                else (map (\<lambda>bucket. [0..<length bucket]) (buckets s2), ms (epoch s2)))
             = (indices, g1)"
    using ig unfolding ig_def assms by simp
  have bl: "batch_loop s1 indices [0..<length (buckets s2)]
      = batch_loop s2 indices [0..<length (buckets s2)]"
    using assms by (intro batch_loop_fields) simp_all
  show ?thesis
    unfolding iter_unfold [of s1 rp ms indices g1, OF ig [unfolded ig_def]]
      iter_unfold [of s2 rp ms indices g1, OF ig2] assms bl
    by (auto split: sum.splits)
qed

lemma iter_state:
  "snd (iter ms rp s) = s \<or> (\<exists>bt. snd (iter ms rp s) = s\<lparr>batches := Some bt\<rparr>)"
proof -
  define ig where "ig = (if shuffle s then draw_indices rp (buckets s) (ms (epoch s))
                           else (map (\<lambda>bucket. [0..<length bucket]) (buckets s), ms (epoch s)))"
  obtain indices g1 where ig: "ig = (indices, g1)" by (cases ig)
  show ?thesis
    unfolding iter_unfold [of s rp ms indices g1, OF ig [unfolded ig_def]]
    by (auto split: sum.splits)
qed

lemma stride_slot_unique:
  fixes R :: nat
  assumes "0 < R" "R dvd n" "slot < n"
  shows "\<exists>!p. fst p < R \<and> snd p < n div R \<and> slot = fst p + snd p * R"
proof (rule ex1I [of _ "(slot mod R, slot div R)"])
  have "slot < (n div R) * R" using assms(2,3) by simp
  then have "slot div R < n div R" by (rule less_mult_imp_div_less)
  then show "fst (slot mod R, slot div R) < R \<and> snd (slot mod R, slot div R) < n div R
     \<and> slot = fst (slot mod R, slot div R) + snd (slot mod R, slot div R) * R"
    using assms(1) by simp
next
  fix p :: "nat \<times> nat"
  assume p: "fst p < R \<and> snd p < n div R \<and> slot = fst p + snd p * R"
  then have "slot mod R = fst p" "slot div R = snd p" by simp_all
  then show "p = (slot mod R, slot div R)" by (simp add: prod_eq_iff)
qed

subsection \<open>The buckets of a constructed sampler\<close>

lemma assigned_disjoint: "b \<noteq> b' \<Longrightarrow> set (assigned bs ls b) \<inter> set (assigned bs ls b') = {}"
  by (auto simp: assigned_def)

lemma distinct_concat_assigned:
  "distinct idxs \<Longrightarrow> distinct (concat (map (assigned bs ls) idxs))"
proof (induction idxs)
  case Nil
  show ?case by simp
next
  case (Cons b idxs)
  have "set (assigned bs ls b) \<inter> set (assigned bs ls b') = {}" if "b' \<in> set idxs" for b'
    using that Cons.prems by (intro assigned_disjoint) auto
  moreover have "distinct (assigned bs ls b)" by (simp add: assigned_def)
  ultimately show ?case using Cons by auto
qed

text \<open>
  What does hold of the constructed buckets: no item is in two buckets or twice in one,
  every item of a bucket is an index of the length list, every bucket after the first is
  non-empty, and the boundary list has one entry more than the bucket list.
\<close>

lemma init_buckets_partition:
  assumes "init ls B bs R rk sh = Inr s"
  shows "distinct (concat (buckets s))"
    and "set (concat (buckets s)) \<subseteq> {0..<length ls}"
    and "\<forall>b\<in>set (tl (buckets s)). b \<noteq> []"
proof -
  have b: "buckets s = [] \<or> buckets s = retained bs ls"
    using init_buckets [OF assms] by (auto split: if_splits)
  have "concat (filter (\<lambda>b. b \<noteq> []) xss) = concat xss" for xss :: "nat list list"
    by (induction xss) simp_all
  then have c: "concat (retained bs ls) = concat (map (assigned bs ls) (0 # [1..<length bs - 1]))"
    by (simp add: retained_def)
  have "distinct (0 # [1..<length bs - 1])" by simp
  then have "distinct (concat (retained bs ls))"
    unfolding c by (rule distinct_concat_assigned)
  then show "distinct (concat (buckets s))" using b by auto
  have "set (concat (retained bs ls)) \<subseteq> {0..<length ls}"
    unfolding c by (auto simp: assigned_def)
  then show "set (concat (buckets s)) \<subseteq> {0..<length ls}" using b by fastforce
  show "\<forall>b\<in>set (tl (buckets s)). b \<noteq> []" using b by (auto simp: retained_def)
qed

subsection \<open>\<^verbatim>\<open>MelCollate.__call__\<close>\<close>

lemma assign_block_ok:
  assumes "size0 mel = length old" "size1 mel \<le> max_len"
  shows "assign_block old max_len mel =
     Inr (map (\<lambda>r. entries mel ! r @ drop (size1 mel) (old ! r)) [0..<length old])"
proof -
  have "min (size1 mel) max_len = size1 mel" using assms(2) by simp
  then show ?thesis using assms(1) by (simp add: assign_block_def Let_def)
qed

lemma collate_loop_ok:
  assumes "\<forall>k\<in>set ids. k < length batch"
    and "\<forall>m\<in>set batch. size0 m = F \<and> size1 m \<le> max_len"
  shows "distinct is \<Longrightarrow>
     \<forall>i\<in>set is. i < length ids \<and> i < length padded \<and> i < length lens
        \<and> length (padded ! i) = F \<Longrightarrow>
     \<exists>padded' lens'. collate_loop batch ids max_len is (padded, lens) = Inr (padded', lens')
       \<and> length padded' = length padded \<and> length lens' = length lens
       \<and> (\<forall>j<length padded. padded' ! j =
             (if j \<in> set is
              then map (\<lambda>r. entries (batch ! (ids ! j)) ! r
                               @ drop (size1 (batch ! (ids ! j))) (padded ! j ! r)) [0..<F]
              else padded ! j))
       \<and> (\<forall>j<length lens. lens' ! j =
             (if j \<in> set is then Some (int (size1 (batch ! (ids ! j)))) else lens ! j))"
proof (induction "is" arbitrary: padded lens)
  case Nil
  then show ?case by simp
next
  case (Cons i "is")
  let ?mel = "batch ! (ids ! i)"
  let ?block = "map (\<lambda>r. entries ?mel ! r @ drop (size1 ?mel) (padded ! i ! r)) [0..<F]"
  let ?padded1 = "padded[i := ?block]"
  let ?lens1 = "lens[i := Some (int (size1 ?mel))]"
  have i: "i < length ids" "i < length padded" "i < length lens" "length (padded ! i) = F"
    "i \<notin> set is" "distinct is"
    using Cons.prems by simp_all
  have k: "ids ! i < length batch" using assms(1) i(1) by simp
  then have mel: "size0 ?mel = F" "size1 ?mel \<le> max_len" using assms(2) by simp_all
  have g1: "getitem ids (int i) = Inr (ids ! i)" using i(1) by (rule getitem_nat)
  have g2: "getitem batch (int (ids ! i)) = Inr ?mel" using k by (rule getitem_nat)
  have a: "assign_block (padded ! i) max_len ?mel = Inr ?block"
    using assign_block_ok [of ?mel "padded ! i" max_len] mel i(4) by simp
  have step: "collate_loop batch ids max_len (i # is) (padded, lens)
      = collate_loop batch ids max_len is (?padded1, ?lens1)"
    using g1 g2 a i(2,3) by simp
  have pre: "\<forall>j\<in>set is. j < length ids \<and> j < length ?padded1 \<and> j < length ?lens1
        \<and> length (?padded1 ! j) = F"
    using Cons.prems(2) i(5) by (auto simp: nth_list_update)
  from Cons.IH [OF i(6) pre] obtain padded' lens' where
    r: "collate_loop batch ids max_len is (?padded1, ?lens1) = Inr (padded', lens')"
      "length padded' = length ?padded1" "length lens' = length ?lens1"
      "\<forall>j<length ?padded1. padded' ! j =
             (if j \<in> set is
              then map (\<lambda>r. entries (batch ! (ids ! j)) ! r
                               @ drop (size1 (batch ! (ids ! j))) (?padded1 ! j ! r)) [0..<F]
              else ?padded1 ! j)"
      "\<forall>j<length ?lens1. lens' ! j =
             (if j \<in> set is then Some (int (size1 (batch ! (ids ! j)))) else ?lens1 ! j)"
    by blast
  have p: "\<forall>j<length padded. padded' ! j =
             (if j \<in> set (i # is)
              then map (\<lambda>r. entries (batch ! (ids ! j)) ! r
                               @ drop (size1 (batch ! (ids ! j))) (padded ! j ! r)) [0..<F]
              else padded ! j)"
  proof (intro allI impI)
    fix j assume j: "j < length padded"
    show "padded' ! j =
             (if j \<in> set (i # is)
              then map (\<lambda>r. entries (batch ! (ids ! j)) ! r
                               @ drop (size1 (batch ! (ids ! j))) (padded ! j ! r)) [0..<F]
              else padded ! j)"
    proof (cases "j = i")
      case True
      then show ?thesis using r(4) i(2,5) by simp
    next
      case False
      then show ?thesis using r(4) j by simp
    qed
  qed
  have l: "\<forall>j<length lens. lens' ! j =
             (if j \<in> set (i # is) then Some (int (size1 (batch ! (ids ! j)))) else lens ! j)"
  proof (intro allI impI)
    fix j assume j: "j < length lens"
    show "lens' ! j =
             (if j \<in> set (i # is) then Some (int (size1 (batch ! (ids ! j)))) else lens ! j)"
    proof (cases "j = i")
      case True
      then show ?thesis using r(5) i(3,5) by simp
    next
      case False
      then show ?thesis using r(5) j by simp
    qed
  qed
  show ?case unfolding step using r(1,2,3) p l by simp
qed

section \<open>The claims\<close>

text \<open>
  C1, at an input where it fails. With lengths \<open>[15, 25]\<close> and the strictly increasing
  boundaries \<open>[0, 10, 20, 30]\<close> the second and third buckets are non-empty and the first
  one is empty; the removal loop never looks at index 0, so the constructed sampler
  retains the empty bucket.
\<close>

theorem C1_retained_empty_bucket:
  "sorted_wrt (<) [0, 10, 20, 30 :: int]
   \<and> init [15, 25] 1 [0, 10, 20, 30] 1 0 True =
       Inr \<lparr>lengths = [15, 25], batch_size = 1, boundaries = [0, 10, 20, 30], num_replicas = 1,
            rank = 0, shuffle = True, epoch = 0, buckets = [[], [0], [1]],
            num_samples_per_bucket = [0, 1, 1], total_size = 2, num_samples = 2, batches = None\<rparr>
   \<and> [] \<in> set [[], [0], [1::nat]]"
proof -
  have "init [15, 25] 1 [0, 10, 20, 30] 1 0 True =
       Inr \<lparr>lengths = [15, 25], batch_size = 1, boundaries = [0, 10, 20, 30], num_replicas = 1,
            rank = 0, shuffle = True, epoch = 0, buckets = [[], [0], [1]],
            num_samples_per_bucket = [0, 1, 1], total_size = 2, num_samples = 2, batches = None\<rparr>"
    by code_simp
  then show ?thesis by simp
qed

text \<open>
  C2. After a successful construction with \<open>batch_size > 0\<close>, \<open>num_replicas > 0\<close>, a rank in
  \<open>0 \<dots> num_replicas - 1\<close> and no empty retained bucket, and for a generator whose
  \<open>randperm\<close> returns permutations, \<open>__iter__\<close> in any epoch returns a batch list (the
  assertion holds) with \<open>num_samples div batch_size\<close> batches, which is what \<open>__len__\<close>
  returns. The order of the boundaries is not needed.
\<close>

theorem C2_batch_count:
  assumes "init ls B bs R rk sh = Inr s0"
    and "0 < B" "0 < R" "0 \<le> rk" "rk < R"
    and "\<forall>b\<in>set (buckets s0). b \<noteq> []"
    and "randperm_contract rp"
  shows "\<exists>bt. iter ms rp (set_epoch s0 e) = (Inr bt, (set_epoch s0 e)\<lparr>batches := Some bt\<rparr>)
     \<and> int (length bt) = num_samples s0 div batch_size s0
     \<and> int (length bt) * batch_size s0 = num_samples s0
     \<and> len (set_epoch s0 e) = Inr (int (length bt))"
proof -
  let ?s = "set_epoch s0 e"
  note f = init_fields [OF assms(1)]
  have d: "0 < R * B" using assms(2,3) by simp
  note c = count_samples_props [OF f(11) d]
  have 1: "length (num_samples_per_bucket ?s) = length (buckets ?s)"
    using c(1) by (simp add: set_epoch_def)
  have c2: "\<forall>i<length (buckets s0). int (length (buckets s0 ! i)) \<le> num_samples_per_bucket s0 ! i
           \<and> R * B dvd num_samples_per_bucket s0 ! i"
    using c(2) by blast
  have 2: "\<forall>i<length (buckets ?s). buckets ?s ! i \<noteq> []
           \<and> int (length (buckets ?s ! i)) \<le> num_samples_per_bucket ?s ! i
           \<and> num_replicas ?s * batch_size ?s dvd num_samples_per_bucket ?s ! i"
    using c2 assms(6) f(2,3) by (simp add: set_epoch_def)
  have 3: "0 < batch_size ?s" "0 \<le> rank ?s" "rank ?s < num_replicas ?s"
    using assms(2,4,5) f(2,3,4) by (simp_all add: set_epoch_def)
  have 4: "num_samples ?s = sum_list (num_samples_per_bucket ?s) div num_replicas ?s"
    using f(3,9,10) by (simp add: set_epoch_def)
  from iter_ok [OF assms(7) 1 2 3 4, of ms] obtain bt where
    bt: "iter ms rp ?s = (Inr bt, ?s\<lparr>batches := Some bt\<rparr>)"
      "int (length bt) * batch_size ?s = num_samples ?s"
    by blast
  have b: "batch_size ?s = batch_size s0" "num_samples ?s = num_samples s0"
    by (simp_all add: set_epoch_def)
  have m: "int (length bt) * batch_size s0 = num_samples s0" using bt(2) b by simp
  have bp: "0 < batch_size s0" using 3(1) b by simp
  have q: "int (length bt) = num_samples s0 div batch_size s0"
    using m bp by (metis nonzero_mult_div_cancel_right less_irrefl)
  have "len ?s = Inr (int (length bt))" using q bp b by (simp add: len_def)
  then show ?thesis using bt(1) m q by blast
qed

theorem C2_batch_count_witness:
  "init [5, 15, 25, 35] 2 [0, 10, 20, 30, 40] 1 0 True =
     Inr \<lparr>lengths = [5, 15, 25, 35], batch_size = 2, boundaries = [0, 10, 20, 30, 40],
          num_replicas = 1, rank = 0, shuffle = True, epoch = 0,
          buckets = [[0], [1], [2], [3]], num_samples_per_bucket = [2, 2, 2, 2],
          total_size = 8, num_samples = 8, batches = None\<rparr>
   \<and> randperm_contract (\<lambda>n (g::int). (rev [0..<n], g + 1))
   \<and> (\<exists>bt s'. iter (\<lambda>e. e) (\<lambda>n (g::int). (rev [0..<n], g + 1))
         \<lparr>lengths = [5, 15, 25, 35], batch_size = 2, boundaries = [0, 10, 20, 30, 40],
          num_replicas = 1, rank = 0, shuffle = True, epoch = 7,
          buckets = [[0], [1], [2], [3]], num_samples_per_bucket = [2, 2, 2, 2],
          total_size = 8, num_samples = 8, batches = None\<rparr> = (Inr bt, s')
       \<and> length bt = 4)"
proof -
  let ?s0 = "\<lparr>lengths = [5, 15, 25, 35], batch_size = 2, boundaries = [0, 10, 20, 30, 40],
          num_replicas = 1, rank = 0, shuffle = True, epoch = 0,
          buckets = [[0], [1], [2], [3]], num_samples_per_bucket = [2, 2, 2, 2],
          total_size = 8, num_samples = 8, batches = None\<rparr>"
  have i: "init [5, 15, 25, 35] 2 [0, 10, 20, 30, 40] 1 0 True = Inr ?s0" by code_simp
  have h: "(0::int) < 2" "(0::int) < 1" "(0::int) \<le> 0" "(0::int) < 1" by simp_all
  have b: "\<forall>b\<in>set (buckets ?s0). b \<noteq> []" by simp
  have r: "randperm_contract (\<lambda>n (g::int). (rev [0..<n], g + 1))"
    by (simp add: randperm_contract_def)
  from C2_batch_count [OF i h b r, of "\<lambda>e. e" 7] i r show ?thesis
    by (auto simp: set_epoch_def)
qed

text \<open>
  C3. \<open>MelLoader.__init__\<close> and \<open>AudioMelMixedMaskRandomLoader.__init__\<close> store the clamped
  manifest lengths in manifest order and the shuffled path list. Whenever the shuffle is a
  permutation that moves at least one path of a manifest with distinct paths and distinct
  (clamped) lengths, there is an index \<open>i\<close> at which the stored length is neither the
  length that the manifest records for the stored path nor that length clamped.
\<close>

theorem C3_lengths_not_shuffled:
  assumes "mset (shuffle1234 (map fst manifest)) = mset (map fst manifest)"
    and "shuffle1234 (map fst manifest) \<noteq> map fst manifest"
    and "distinct (map fst manifest)"
    and "distinct (map (\<lambda>n. if n \<le> M then n else M) (map snd manifest))"
  shows "mel_loader.lengths (MelLoader_init shuffle1234 manifest M mn hop)
             = map (\<lambda>n. if n \<le> M then n else M) (map snd manifest)
     \<and> npys (MelLoader_init shuffle1234 manifest M mn hop) = shuffle1234 (map fst manifest)
     \<and> (\<exists>i l. i < length manifest
           \<and> map_of manifest (npys (MelLoader_init shuffle1234 manifest M mn hop) ! i) = Some l
           \<and> mel_loader.lengths (MelLoader_init shuffle1234 manifest M mn hop) ! i \<noteq> l
           \<and> mel_loader.lengths (MelLoader_init shuffle1234 manifest M mn hop) ! i
               \<noteq> (if l \<le> M then l else M))
     \<and> audio_mel_loader.lengths (AudioMelMixedMaskRandomLoader_init shuffle1234 manifest M mn hop)
             = map (\<lambda>n. if n \<le> M then n else M) (map snd manifest)
     \<and> npzs (AudioMelMixedMaskRandomLoader_init shuffle1234 manifest M mn hop)
             = shuffle1234 (map fst manifest)
     \<and> (\<exists>i l. i < length manifest
           \<and> map_of manifest
                 (npzs (AudioMelMixedMaskRandomLoader_init shuffle1234 manifest M mn hop) ! i) = Some l
           \<and> audio_mel_loader.lengths
                 (AudioMelMixedMaskRandomLoader_init shuffle1234 manifest M mn hop) ! i \<noteq> l
           \<and> audio_mel_loader.lengths
                 (AudioMelMixedMaskRandomLoader_init shuffle1234 manifest M mn hop) ! i
               \<noteq> (if l \<le> M then l else M))"
proof -
  let ?paths = "map fst manifest"
  let ?np = "shuffle1234 ?paths"
  let ?clamp = "\<lambda>n. if n \<le> M then n else M"
  let ?ls = "map ?clamp (map snd manifest)"
  have len: "length ?np = length manifest"
    using mset_eq_length [OF assms(1)] by simp
  then obtain i where i: "i < length manifest" "?np ! i \<noteq> ?paths ! i"
    using assms(2) by (auto simp: list_eq_iff_nth_eq)
  have "?np ! i \<in> set ?paths"
    using mset_eq_setD [OF assms(1)] i(1) len nth_mem [of i ?np] by simp
  then obtain j where j: "j < length manifest" "?paths ! j = ?np ! i"
    by (auto simp: in_set_conv_nth)
  have ij: "i \<noteq> j" using i(2) j(2) by auto
  have "(?np ! i, snd (manifest ! j)) \<in> set manifest"
    using j by (metis nth_map nth_mem prod.collapse)
  then have m: "map_of manifest (?np ! i) = Some (snd (manifest ! j))"
    using assms(3) by simp
  define ls where "ls = ?ls"
  have "distinct ls" "i < length ls" "j < length ls"
    using assms(4) i(1) j(1) by (simp_all add: ls_def)
  then have "ls ! i \<noteq> ls ! j" using ij by (simp add: nth_eq_iff_index_eq)
  moreover have "ls ! j = ?clamp (snd (manifest ! j))" using j(1) by (simp add: ls_def)
  ultimately have d: "?ls ! i \<noteq> ?clamp (snd (manifest ! j))" by (simp add: ls_def)
  have "?ls ! i \<le> M" using i(1) by simp
  then have d': "?ls ! i \<noteq> snd (manifest ! j)" using d by (cases "snd (manifest ! j) \<le> M") auto
  have ex: "\<exists>i l. i < length manifest \<and> map_of manifest (?np ! i) = Some l
      \<and> ?ls ! i \<noteq> l \<and> ?ls ! i \<noteq> ?clamp l"
    using i(1) m d d' by blast
  show ?thesis
    unfolding MelLoader_init_def AudioMelMixedMaskRandomLoader_init_def
    using ex by simp
qed

theorem C3_lengths_not_shuffled_witness:
  "mset (map ((!) (map fst [(''a.npy'', 10 :: int), (''b.npy'', 20), (''c.npy'', 30)])) [2, 0, 1])
       = mset (map fst [(''a.npy'', 10 :: int), (''b.npy'', 20), (''c.npy'', 30)])
   \<and> npys (MelLoader_init (\<lambda>xs. map ((!) xs) [2, 0, 1])
         [(''a.npy'', 10), (''b.npy'', 20), (''c.npy'', 30)] 100 0 256)
       = [''c.npy'', ''a.npy'', ''b.npy'']
   \<and> mel_loader.lengths (MelLoader_init (\<lambda>xs. map ((!) xs) [2, 0, 1])
         [(''a.npy'', 10), (''b.npy'', 20), (''c.npy'', 30)] 100 0 256)
       = [10, 20, 30]
   \<and> map_of [(''a.npy'', 10 :: int), (''b.npy'', 20), (''c.npy'', 30)] ''c.npy'' = Some 30
   \<and> (\<exists>i l. i < length [(''a.npy'', 10 :: int), (''b.npy'', 20), (''c.npy'', 30)]
         \<and> map_of [(''a.npy'', 10), (''b.npy'', 20), (''c.npy'', 30)]
              (npys (MelLoader_init (\<lambda>xs. map ((!) xs) [2, 0, 1])
                 [(''a.npy'', 10), (''b.npy'', 20), (''c.npy'', 30)] 100 0 256) ! i) = Some l
         \<and> mel_loader.lengths (MelLoader_init (\<lambda>xs. map ((!) xs) [2, 0, 1])
                 [(''a.npy'', 10), (''b.npy'', 20), (''c.npy'', 30)] 100 0 256) ! i \<noteq> l)"
proof -
  let ?m = "[(''a.npy'', 10 :: int), (''b.npy'', 20), (''c.npy'', 30)]"
  let ?sh = "\<lambda>xs :: string list. map ((!) xs) [2, 0, 1]"
  have h: "mset (?sh (map fst ?m)) = mset (map fst ?m)"
    "?sh (map fst ?m) \<noteq> map fst ?m"
    "distinct (map fst ?m)"
    "distinct (map (\<lambda>n. if n \<le> 100 then n else 100) (map snd ?m))"
    by simp_all
  have e: "npys (MelLoader_init ?sh ?m 100 0 256) = [''c.npy'', ''a.npy'', ''b.npy'']"
    "mel_loader.lengths (MelLoader_init ?sh ?m 100 0 256) = [10, 20, 30]"
    "map_of ?m ''c.npy'' = Some 30"
    by (simp_all add: MelLoader_init_def)
  from C3_lengths_not_shuffled [of ?sh ?m 100 0 256, OF h]
  have "\<exists>i l. i < length ?m
         \<and> map_of ?m (npys (MelLoader_init ?sh ?m 100 0 256) ! i) = Some l
         \<and> mel_loader.lengths (MelLoader_init ?sh ?m 100 0 256) ! i \<noteq> l"
    by blast
  then show ?thesis using h(1) e by blast
qed

text \<open>
  C4. For buckets of any sizes and a divisor \<open>d = num_replicas * batch_size > 0\<close>, the third
  loop of \<open>_create_buckets\<close> succeeds and the sample target it computes for a bucket of
  size \<open>n\<close> is \<open>n + ((d - n mod d) mod d)\<close>; this target is at least \<open>n\<close>, is a multiple
  of \<open>d\<close>, and is below \<open>n + d\<close>.
\<close>

theorem C4_sample_target:
  assumes "0 < R * B"
  shows "\<exists>ns. count_samples R B bk = Inr ns \<and> length ns = length bk
     \<and> (\<forall>i<length bk.
           ns ! i = int (length (bk ! i)) + (R * B - int (length (bk ! i)) mod (R * B)) mod (R * B)
         \<and> int (length (bk ! i)) \<le> ns ! i
         \<and> ns ! i mod (R * B) = 0
         \<and> ns ! i < int (length (bk ! i)) + R * B)"
proof -
  have "R * B \<noteq> 0" using assms by linarith
  then obtain ns where ns: "count_samples R B bk = Inr ns" by (simp add: count_samples_eq)
  have "\<forall>i<length bk.
           ns ! i = int (length (bk ! i)) + (R * B - int (length (bk ! i)) mod (R * B)) mod (R * B)
         \<and> int (length (bk ! i)) \<le> ns ! i
         \<and> ns ! i mod (R * B) = 0
         \<and> ns ! i < int (length (bk ! i)) + R * B"
  proof (intro allI impI)
    fix i assume "i < length bk"
    with count_samples_props(2) [OF ns assms]
    have "int (length (bk ! i)) \<le> ns ! i \<and> R * B dvd ns ! i
           \<and> ns ! i < int (length (bk ! i)) + R * B
           \<and> ns ! i = int (length (bk ! i)) + (R * B - int (length (bk ! i)) mod (R * B)) mod (R * B)"
      by blast
    then show "ns ! i = int (length (bk ! i)) + (R * B - int (length (bk ! i)) mod (R * B)) mod (R * B)
         \<and> int (length (bk ! i)) \<le> ns ! i
         \<and> ns ! i mod (R * B) = 0
         \<and> ns ! i < int (length (bk ! i)) + R * B"
      unfolding dvd_eq_mod_eq_0 by blast
  qed
  then show ?thesis using ns count_samples_props(1) [OF ns assms] by blast
qed

theorem C4_sample_target_witness:
  "(0::int) < 2 * 3 \<and> count_samples 2 3 [[0, 1, 2, 3, 4, 5, 6], [7]] = Inr [12, 6]
     \<and> (12::int) = 7 + (2 * 3 - 7 mod (2 * 3)) mod (2 * 3) \<and> (12::int) mod (2 * 3) = 0"
proof -
  have h: "(0::int) < 2 * 3" by simp
  have e: "count_samples 2 3 [[0, 1, 2, 3, 4, 5, 6], [7]] = Inr [12, 6]" by code_simp
  from C4_sample_target [OF h, of "[[0, 1, 2, 3, 4, 5, 6], [7]]"] e h show ?thesis by simp
qed

text \<open>
  C5. For a strictly increasing, non-empty boundary list \<open>[b0, \<dots>, bK]\<close> and any length \<open>x\<close>,
  \<open>_bisect\<close> returns without error, and it returns the index \<open>i\<close> exactly when
  \<open>bs ! i < x \<le> bs ! (i + 1)\<close> (a length equal to a boundary goes to the lower bucket) and
  \<open>-1\<close> exactly when \<open>x \<le> b0\<close> or \<open>x > bK\<close>; an item whose result is \<open>-1\<close> is in no bucket
  of the constructed sampler.
\<close>

theorem C5_bisect:
  assumes "sorted_wrt (<) bs" "bs \<noteq> []"
  shows "\<exists>r. bisect_call bs x = Inr r
     \<and> (r = - 1 \<or> (0 \<le> r \<and> r < int (length bs) - 1))
     \<and> (\<forall>i. Suc i < length bs \<longrightarrow> (r = int i \<longleftrightarrow> bs ! i < x \<and> x \<le> bs ! Suc i))
     \<and> (r = - 1 \<longleftrightarrow> x \<le> bs ! 0 \<or> bs ! (length bs - 1) < x)
     \<and> (\<forall>ls B R rk sh s j. init ls B bs R rk sh = Inr s \<and> j < length ls
            \<and> bisect_call bs (ls ! j) = Inr (- 1) \<longrightarrow> (\<forall>b\<in>set (buckets s). j \<notin> set b))"
proof -
  obtain r where r: "bisect_call bs x = Inr r"
    "r = - 1 \<Longrightarrow> length bs \<le> 1 \<or> x \<le> bs ! 0 \<or> bs ! (length bs - 1) < x"
    "r \<noteq> - 1 \<Longrightarrow> 0 \<le> r \<and> r < int (length bs) - 1 \<and> bs ! nat r < x \<and> x \<le> bs ! nat (r + 1)"
    using bisect_call_sound [of bs x] by (auto split: if_splits)
  have range: "r = - 1 \<or> (0 \<le> r \<and> r < int (length bs) - 1)" using r(3) by blast
  have idx: "\<forall>i. Suc i < length bs \<longrightarrow> (r = int i \<longleftrightarrow> bs ! i < x \<and> x \<le> bs ! Suc i)"
  proof (intro allI impI iffI)
    fix i assume "Suc i < length bs" "r = int i"
    then show "bs ! i < x \<and> x \<le> bs ! Suc i" using r(3) by (simp add: nat_add_distrib)
  next
    fix i assume "Suc i < length bs" "bs ! i < x \<and> x \<le> bs ! Suc i"
    then have "bisect_call bs x = Inr (int i)"
      using bisect_call_complete [OF assms(1), of i x] by simp
    then show "r = int i" using r(1) by simp
  qed
  have out: "r = - 1 \<longleftrightarrow> x \<le> bs ! 0 \<or> bs ! (length bs - 1) < x"
  proof
    assume m: "r = - 1"
    show "x \<le> bs ! 0 \<or> bs ! (length bs - 1) < x"
    proof (cases "length bs \<le> 1")
      case True
      then have "length bs - 1 = 0" by simp
      then show ?thesis by (simp add: not_less [symmetric])
    next
      case False
      then show ?thesis using r(2) m by simp
    qed
  next
    assume o: "x \<le> bs ! 0 \<or> bs ! (length bs - 1) < x"
    show "r = - 1"
    proof (rule ccontr)
      assume "r \<noteq> - 1"
      from r(3) [OF this] have b: "0 \<le> r" "Suc (nat r) < length bs" "bs ! nat r < x"
        "x \<le> bs ! Suc (nat r)" by (auto simp: nat_add_distrib)
      have "bs ! 0 \<le> bs ! nat r" using assms(1) b(2) by (intro strict_sorted_nth_le) auto
      moreover have "bs ! Suc (nat r) \<le> bs ! (length bs - 1)"
        using assms(1) b(2) by (intro strict_sorted_nth_le) auto
      ultimately show False using o b(3,4) by linarith
    qed
  qed
  have items: "\<forall>ls B R rk sh s j. init ls B bs R rk sh = Inr s \<and> j < length ls
            \<and> bisect_call bs (ls ! j) = Inr (- 1) \<longrightarrow> (\<forall>b\<in>set (buckets s). j \<notin> set b)"
  proof (intro allI impI ballI notI)
    fix ls B R rk sh s j b
    assume a: "init ls B bs R rk sh = Inr s \<and> j < length ls \<and> bisect_call bs (ls ! j) = Inr (- 1)"
      and b: "b \<in> set (buckets s)" and j: "j \<in> set b"
    have "b \<in> set (retained bs ls)" using init_buckets [of ls B bs R rk sh s] a b
      by (auto split: if_splits)
    then obtain k where "b = assigned bs ls k" by (auto simp: retained_def)
    then have "bisect_call bs (ls ! j) = Inr (int k)" using j by (simp add: assigned_def)
    then show False using a by simp
  qed
  show ?thesis using r(1) range idx out items by blast
qed

theorem C5_bisect_witness:
  "sorted_wrt (<) [0, 10, 20 :: int] \<and> [0, 10, 20 :: int] \<noteq> []
     \<and> bisect_call [0, 10, 20] 10 = Inr 0 \<and> (0::int) < 10 \<and> (10::int) \<le> 10
     \<and> bisect_call [0, 10, 20] 25 = Inr (- 1) \<and> (20::int) < 25
     \<and> init [5, 25] 1 [0, 10, 20] 1 0 True =
         Inr \<lparr>lengths = [5, 25], batch_size = 1, boundaries = [0, 10], num_replicas = 1,
              rank = 0, shuffle = True, epoch = 0, buckets = [[0]],
              num_samples_per_bucket = [1], total_size = 1, num_samples = 1, batches = None\<rparr>
     \<and> (1::nat) \<notin> set (concat [[0]])"
proof -
  have h: "sorted_wrt (<) [0, 10, 20 :: int]" "[0, 10, 20 :: int] \<noteq> []" by simp_all
  have e: "bisect_call [0, 10, 20] 10 = Inr 0" "bisect_call [0, 10, 20] 25 = Inr (- 1)"
    by code_simp+
  have i: "init [5, 25] 1 [0, 10, 20] 1 0 True =
         Inr \<lparr>lengths = [5, 25], batch_size = 1, boundaries = [0, 10], num_replicas = 1,
              rank = 0, shuffle = True, epoch = 0, buckets = [[0]],
              num_samples_per_bucket = [1], total_size = 1, num_samples = 1, batches = None\<rparr>"
    by code_simp
  from C5_bisect [OF h, of 10] C5_bisect [OF h, of 25] e i h show ?thesis by simp
qed

text \<open>
  C6. For a non-empty bucket, an index list over its positions, \<open>batch_size > 0\<close> and
  \<open>num_replicas > 0\<close>, with \<open>ns\<close> the sample count that \<open>_create_buckets\<close> gives the bucket:
  the extended index list has exactly \<open>ns\<close> entries, all of them entries of the original
  list; for each rank \<open>r\<close> below \<open>num_replicas\<close> the subsample \<^verbatim>\<open>ids_bucket[r::num_replicas]\<close>
  has \<open>ns div num_replicas\<close> entries, its entry \<open>k\<close> being slot \<open>r + k * num_replicas\<close>; and
  every slot of the extended list is entry \<open>k\<close> of rank \<open>r\<close> for exactly one pair \<open>(r, k)\<close>.
\<close>

theorem C6_strided_partition:
  assumes "bucket \<noteq> []" "length ids = length bucket" "\<forall>i\<in>set ids. i < length bucket"
    and "count_samples R B [bucket] = Inr [ns]" "0 < B" "0 < R"
  shows "\<exists>ext. extend_ids ids (int (length bucket)) ns = Inr ext
     \<and> int (length ext) = ns \<and> set ext = set ids
     \<and> (\<forall>r<nat R. \<exists>sub. slice_step ext (int r) R = Inr sub
            \<and> int (length sub) = ns div R
            \<and> (\<forall>k<length sub. r + k * nat R < length ext \<and> sub ! k = ext ! (r + k * nat R)))
     \<and> (\<forall>slot<length ext. \<exists>!p. fst p < nat R \<and> snd p < length ext div nat R
            \<and> slot = fst p + snd p * nat R)"
proof -
  have d: "0 < R * B" using assms(5,6) by simp
  from count_samples_props(2) [OF assms(4) d]
  have ns: "int (length bucket) \<le> ns" "R * B dvd ns" by auto
  have ids: "ids \<noteq> []" "int (length ids) \<le> ns" using assms(1,2) ns(1) by auto
  from extend_ids_ok [OF ids] obtain ext where
    ext: "extend_ids ids (int (length bucket)) ns = Inr ext" "length ext = nat ns" "set ext = set ids"
    using assms(2) by auto
  have nn: "0 \<le> ns" using ns(1) by simp
  have len: "int (length ext) = ns" using ext(2) nn by simp
  have Rdvd: "R dvd int (length ext)" using ns(2) len by (simp add: dvd_mult_left)
  then have Rdvd': "nat R dvd length ext" using assms(6)
    by (metis int_dvd_int_iff nat_0_le less_imp_le)
  have ranks: "\<forall>r<nat R. \<exists>sub. slice_step ext (int r) R = Inr sub
            \<and> int (length sub) = ns div R
            \<and> (\<forall>k<length sub. r + k * nat R < length ext \<and> sub ! k = ext ! (r + k * nat R))"
  proof (intro allI impI)
    fix r assume r: "r < nat R"
    then have r': "0 \<le> int r" "int r < R" by simp_all
    let ?sub = "map (\<lambda>k. ext ! (nat (int r) + k * nat R)) [0..<length ext div nat R]"
    have s: "slice_step ext (int r) R = Inr ?sub" using r' Rdvd by (rule slice_step_rank)
    have l: "int (length ?sub) = ns div R" using len assms(6) by (simp add: zdiv_int)
    have "\<forall>k<length ?sub. r + k * nat R < length ext \<and> ?sub ! k = ext ! (r + k * nat R)"
    proof (intro allI impI)
      fix k assume k: "k < length ?sub"
      then have k': "k < length ext div nat R" by simp
      have "r + k * nat R < Suc k * nat R" using r by simp
      also have "\<dots> \<le> (length ext div nat R) * nat R" using k' by (intro mult_le_mono1) simp
      also have "\<dots> \<le> length ext" by simp
      finally have "r + k * nat R < length ext" .
      then show "r + k * nat R < length ext \<and> ?sub ! k = ext ! (r + k * nat R)"
        using k' by simp
    qed
    then show "\<exists>sub. slice_step ext (int r) R = Inr sub
            \<and> int (length sub) = ns div R
            \<and> (\<forall>k<length sub. r + k * nat R < length ext \<and> sub ! k = ext ! (r + k * nat R))"
      using s l by blast
  qed
  have slots: "\<forall>slot<length ext. \<exists>!p. fst p < nat R \<and> snd p < length ext div nat R
            \<and> slot = fst p + snd p * nat R"
  proof (intro allI impI)
    fix slot assume "slot < length ext"
    moreover have "0 < nat R" using assms(6) by simp
    ultimately show "\<exists>!p. fst p < nat R \<and> snd p < length ext div nat R
            \<and> slot = fst p + snd p * nat R"
      using Rdvd' by (intro stride_slot_unique)
  qed
  show ?thesis using ext(1,3) len ranks slots by blast
qed

theorem C6_strided_partition_witness:
  "[10, 11, 12 :: nat] \<noteq> [] \<and> length [2, 0, 1 :: nat] = length [10, 11, 12 :: nat]
   \<and> count_samples 2 2 [[10, 11, 12]] = Inr [4]
   \<and> extend_ids [2, 0, 1] (int (length [10, 11, 12 :: nat])) 4 = Inr [2, 0, 1, 2]
   \<and> slice_step [2, 0, 1, 2 :: nat] 0 2 = Inr [2, 1]
   \<and> slice_step [2, 0, 1, 2 :: nat] 1 2 = Inr [0, 2]
   \<and> (\<exists>ext. extend_ids [2, 0, 1] (int (length [10, 11, 12 :: nat])) 4 = Inr ext
         \<and> int (length ext) = 4 \<and> set ext = set [2, 0, 1])"
proof -
  have h: "[10, 11, 12 :: nat] \<noteq> []" "length [2, 0, 1 :: nat] = length [10, 11, 12 :: nat]"
    "\<forall>i\<in>set [2, 0, 1 :: nat]. i < length [10, 11, 12 :: nat]"
    by simp_all
  have c: "count_samples 2 2 [[10, 11, 12]] = Inr [4]" by code_simp
  have p: "(0::int) < 2" by simp
  have e: "extend_ids [2, 0, 1] (int (length [10, 11, 12 :: nat])) 4 = Inr [2, 0, 1, 2]"
    "slice_step [2, 0, 1, 2 :: nat] 0 2 = Inr [2, 1]"
    "slice_step [2, 0, 1, 2 :: nat] 1 2 = Inr [0, 2]"
    by code_simp+
  from C6_strided_partition [OF h c p p]
  have "\<exists>ext. extend_ids [2, 0, 1] (int (length [10, 11, 12 :: nat])) 4 = Inr ext
         \<and> int (length ext) = 4 \<and> set ext = set [2, 0, 1]"
    by blast
  then show ?thesis using h(1,2) c e by blast
qed

text \<open>
  C7. The batch sequence that \<open>__iter__\<close> returns (or the exception it raises) is a function
  of the buckets, their sample counts, \<open>num_samples\<close>, \<open>batch_size\<close>, \<open>num_replicas\<close>,
  \<open>rank\<close>, \<open>shuffle\<close> and \<open>epoch\<close> alone: two sampler states that agree on these give
  the same result, whatever batches an earlier call has cached, and calling \<open>__iter__\<close>
  again on the state the first call leaves gives the same result again. The generator is
  created and seeded inside the call.
\<close>

theorem C7_deterministic:
  assumes "buckets s1 = buckets s2" "num_samples_per_bucket s1 = num_samples_per_bucket s2"
    "num_samples s1 = num_samples s2" "batch_size s1 = batch_size s2"
    "num_replicas s1 = num_replicas s2" "rank s1 = rank s2" "shuffle s1 = shuffle s2"
    "epoch s1 = epoch s2"
  shows "fst (iter ms rp s1) = fst (iter ms rp s2)
     \<and> fst (iter ms rp (snd (iter ms rp s1))) = fst (iter ms rp s1)"
proof
  show "fst (iter ms rp s1) = fst (iter ms rp s2)" using assms by (rule iter_fields)
  from iter_state [of ms rp s1]
  show "fst (iter ms rp (snd (iter ms rp s1))) = fst (iter ms rp s1)"
  proof
    assume "snd (iter ms rp s1) = s1"
    then show ?thesis by simp
  next
    assume "\<exists>bt. snd (iter ms rp s1) = s1\<lparr>batches := Some bt\<rparr>"
    then obtain bt where bt: "snd (iter ms rp s1) = s1\<lparr>batches := Some bt\<rparr>" by blast
    show ?thesis unfolding bt by (rule iter_fields) simp_all
  qed
qed

theorem C7_deterministic_witness:
  "fst (iter (\<lambda>e. e) (\<lambda>n (g::int). (rotate (nat g) [0..<n], g + 1))
         \<lparr>lengths = [5, 15, 25, 35, 7], batch_size = 2, boundaries = [0, 10, 20, 30, 40],
          num_replicas = 1, rank = 0, shuffle = True, epoch = 7,
          buckets = [[0, 4], [1], [2], [3]], num_samples_per_bucket = [2, 2, 2, 2],
          total_size = 8, num_samples = 8, batches = None\<rparr>)
     = Inr [[3, 3], [4, 0], [1, 1], [2, 2]]
   \<and> fst (iter (\<lambda>e. e) (\<lambda>n (g::int). (rotate (nat g) [0..<n], g + 1))
         \<lparr>lengths = [5, 15, 25, 35, 7], batch_size = 2, boundaries = [0, 10, 20, 30, 40],
          num_replicas = 1, rank = 0, shuffle = True, epoch = 7,
          buckets = [[0, 4], [1], [2], [3]], num_samples_per_bucket = [2, 2, 2, 2],
          total_size = 8, num_samples = 8, batches = Some [[1, 1], [2, 2]]\<rparr>)
     = Inr [[3, 3], [4, 0], [1, 1], [2, 2]]"
proof -
  let ?s1 = "\<lparr>lengths = [5, 15, 25, 35, 7], batch_size = 2, boundaries = [0, 10, 20, 30, 40],
          num_replicas = 1, rank = 0, shuffle = True, epoch = 7,
          buckets = [[0, 4], [1], [2], [3]], num_samples_per_bucket = [2, 2, 2, 2],
          total_size = 8, num_samples = 8, batches = None\<rparr>"
  let ?s2 = "\<lparr>lengths = [5, 15, 25, 35, 7], batch_size = 2, boundaries = [0, 10, 20, 30, 40],
          num_replicas = 1, rank = 0, shuffle = True, epoch = 7,
          buckets = [[0, 4], [1], [2], [3]], num_samples_per_bucket = [2, 2, 2, 2],
          total_size = 8, num_samples = 8, batches = Some [[1, 1], [2, 2]]\<rparr>"
  have e: "fst (iter (\<lambda>e. e) (\<lambda>n (g::int). (rotate (nat g) [0..<n], g + 1)) ?s1)
     = Inr [[3, 3], [4, 0], [1, 1], [2, 2]]"
    by code_simp
  have "fst (iter (\<lambda>e. e) (\<lambda>n (g::int). (rotate (nat g) [0..<n], g + 1)) ?s1)
      = fst (iter (\<lambda>e. e) (\<lambda>n (g::int). (rotate (nat g) [0..<n], g + 1)) ?s2)"
    using C7_deterministic [of ?s1 ?s2 "\<lambda>e. e" "\<lambda>n (g::int). (rotate (nat g) [0..<n], g + 1)"]
    by simp
  then show ?thesis using e by simp
qed

text \<open>
  C8 as stated fails: boundaries that are not strictly increasing, a length list that leaves
  every bucket empty, and a negative batch size all construct a sampler without error.
\<close>

theorem C8_no_validation_counterexample:
  "\<not> sorted_wrt (<) [20, 10, 0 :: int]
   \<and> init [5] 2 [20, 10, 0] 1 0 True =
       Inr \<lparr>lengths = [5], batch_size = 2, boundaries = [20, 10], num_replicas = 1,
            rank = 0, shuffle = True, epoch = 0, buckets = [[]],
            num_samples_per_bucket = [0], total_size = 0, num_samples = 0, batches = None\<rparr>
   \<and> init [] 2 [0, 10] 1 0 True =
       Inr \<lparr>lengths = [], batch_size = 2, boundaries = [0, 10], num_replicas = 1,
            rank = 0, shuffle = True, epoch = 0, buckets = [[]],
            num_samples_per_bucket = [0], total_size = 0, num_samples = 0, batches = None\<rparr>
   \<and> init [5] (- 1) [0, 10] 1 0 True =
       Inr \<lparr>lengths = [5], batch_size = - 1, boundaries = [0, 10], num_replicas = 1,
            rank = 0, shuffle = True, epoch = 0, buckets = [[0]],
            num_samples_per_bucket = [1], total_size = 1, num_samples = 1, batches = None\<rparr>"
proof -
  have "\<not> sorted_wrt (<) [20, 10, 0 :: int]" by simp
  moreover have "init [5] 2 [20, 10, 0] 1 0 True =
       Inr \<lparr>lengths = [5], batch_size = 2, boundaries = [20, 10], num_replicas = 1,
            rank = 0, shuffle = True, epoch = 0, buckets = [[]],
            num_samples_per_bucket = [0], total_size = 0, num_samples = 0, batches = None\<rparr>"
    by code_simp
  moreover have "init [] 2 [0, 10] 1 0 True =
       Inr \<lparr>lengths = [], batch_size = 2, boundaries = [0, 10], num_replicas = 1,
            rank = 0, shuffle = True, epoch = 0, buckets = [[]],
            num_samples_per_bucket = [0], total_size = 0, num_samples = 0, batches = None\<rparr>"
    by code_simp
  moreover have "init [5] (- 1) [0, 10] 1 0 True =
       Inr \<lparr>lengths = [5], batch_size = - 1, boundaries = [0, 10], num_replicas = 1,
            rank = 0, shuffle = True, epoch = 0, buckets = [[0]],
            num_samples_per_bucket = [1], total_size = 1, num_samples = 1, batches = None\<rparr>"
    by code_simp
  ultimately show ?thesis by blast
qed

text \<open>
  C8, amended. For every configuration with a valid rank, \<open>0 \<le> rank < num_replicas\<close>, in
  which \<open>batch_size\<close> is 0 and at least one item is assigned to a bucket by \<open>_bisect\<close>,
  construction raises an error, the ZeroDivisionError of the padding arithmetic in
  \<open>_create_buckets\<close>: the error is not deferred to \<open>__iter__\<close>.
\<close>

theorem C8_zero_batch_size:
  assumes "0 \<le> rk" "rk < R" "j < length ls" "bisect_call bs (ls ! j) \<noteq> Inr (- 1)"
  shows "init ls 0 bs R rk sh = Inl ZeroDivisionError"
proof -
  obtain r where "bisect_call bs (ls ! j) = Inr r" "r = - 1 \<or> (0 \<le> r \<and> r < int (length bs) - 1)"
    using bisect_call_range by blast
  then have "0 < int (length bs) - 1" using assms(4) by auto
  then have 2: "2 \<le> length bs" by simp
  have "R * 0 = 0" by simp
  from init_zero [OF 2 this assms(1,2)] show ?thesis .
qed

theorem C8_zero_batch_size_witness:
  "(0::int) \<le> 0 \<and> (0::int) < 1 \<and> (0::nat) < length [5::int]
   \<and> bisect_call [0, 10] ([5] ! 0) = Inr 0
   \<and> init [5] 0 [0, 10] 1 0 True = Inl ZeroDivisionError"
proof -
  have h: "(0::int) \<le> 0" "(0::int) < 1" "(0::nat) < length [5::int]" by simp_all
  have b: "bisect_call [0, 10] ([5] ! 0) = Inr 0" by code_simp
  then have n: "bisect_call [0, 10] ([5] ! 0) \<noteq> Inr (- 1)" by simp
  from C8_zero_batch_size [OF h n, of True] h b show ?thesis by simp
qed

text \<open>
  C9. For a non-empty batch of well-formed mel tensors with \<open>F\<close> rows each and at most
  \<open>max_len\<close> frames, and a descending sort that keeps its promise, \<open>MelCollate.__call__\<close>
  returns a buffer of shape \<open>(N, F, max_len)\<close> and a length vector with \<open>N\<close> entries: row
  block \<open>i\<close> holds the item that the sort puts at place \<open>i\<close>, its data in the columns below
  its frame count and zeros in the columns from there on; the length vector holds the frame
  counts in that order, which is descending.
\<close>

theorem C9_collate:
  assumes "sort_contract sort_desc" "batch \<noteq> []"
    and "\<forall>m\<in>set batch. tensor_ok m \<and> size0 m = F \<and> int (size1 m) \<le> max_len"
  shows "\<exists>padded lens. MelCollate_call sort_desc max_len batch = Inr (padded, lens)
     \<and> length padded = length batch \<and> length lens = length batch
     \<and> mset (sort_desc (map (\<lambda>x. int (size1 x)) batch)) = mset [0..<length batch]
     \<and> lens = map (\<lambda>k. Some (int (size1 (batch ! k)))) (sort_desc (map (\<lambda>x. int (size1 x)) batch))
     \<and> sorted_wrt (\<lambda>a b. a \<ge> b)
          (map (\<lambda>k. int (size1 (batch ! k))) (sort_desc (map (\<lambda>x. int (size1 x)) batch)))
     \<and> (\<forall>i<length batch. length (padded ! i) = F
          \<and> (\<forall>r<F. length (padded ! i ! r) = nat max_len
               \<and> (\<forall>c<nat max_len. padded ! i ! r ! c =
                     (if c < size1 (batch ! (sort_desc (map (\<lambda>x. int (size1 x)) batch) ! i))
                      then entries (batch ! (sort_desc (map (\<lambda>x. int (size1 x)) batch) ! i)) ! r ! c
                      else 0))))"
proof -
  define keys where "keys = map (\<lambda>x. int (size1 x)) batch"
  define ids where "ids = sort_desc keys"
  define N where "N = length batch"
  define M where "M = nat max_len"
  let ?padded0 = "replicate N (replicate F (replicate M (0::'a)))"
  let ?lens0 = "replicate N (None :: int option)"
  have perm: "mset ids = mset [0..<N]"
    and srt: "sorted_wrt (\<lambda>a b. a \<ge> b) (map ((!) keys) ids)"
    using assms(1) unfolding sort_contract_def ids_def N_def keys_def by simp_all
  have lids: "length ids = N" using mset_eq_length [OF perm] by simp
  have sids: "set ids = {0..<N}" using mset_eq_setD [OF perm] by simp
  have "distinct ids" using perm by (metis distinct_upt mset_eq_imp_distinct_iff)
  have N: "0 < N" using assms(2) by (simp add: N_def)
  have first: "getitem batch 0 = Inr (batch ! 0)"
    using assms(2) by (simp add: getitem_def py_index_def)
  have f0: "size0 (batch ! 0) = F" using assms(2,3) by simp
  have "0 \<le> int (size1 (batch ! 0))" by simp
  also have "\<dots> \<le> max_len" using assms(2,3) by simp
  finally have mpos: "\<not> max_len < 0" by simp
  have call: "MelCollate_call sort_desc max_len batch
      = collate_loop batch ids M [0..<N] (?padded0, ?lens0)"
    unfolding MelCollate_call_def Let_def keys_def [symmetric] ids_def [symmetric]
      N_def [symmetric] M_def [symmetric]
    using first f0 mpos lids by simp
  have a1: "\<forall>k\<in>set ids. k < length batch" using sids by (simp add: N_def)
  have a2: "\<forall>m\<in>set batch. size0 m = F \<and> size1 m \<le> M"
    using assms(3) by (auto simp: M_def)
  have a3: "distinct [0..<N]" by simp
  have a4: "\<forall>i\<in>set [0..<N]. i < length ids \<and> i < length ?padded0 \<and> i < length ?lens0
        \<and> length (?padded0 ! i) = F"
    using lids by simp
  from collate_loop_ok [OF a1 a2 a3 a4] obtain padded lens where
    r: "collate_loop batch ids M [0..<N] (?padded0, ?lens0) = Inr (padded, lens)"
      "length padded = length ?padded0" "length lens = length ?lens0"
      "\<forall>j<length ?padded0. padded ! j =
             (if j \<in> set [0..<N]
              then map (\<lambda>r. entries (batch ! (ids ! j)) ! r
                               @ drop (size1 (batch ! (ids ! j))) (?padded0 ! j ! r)) [0..<F]
              else ?padded0 ! j)"
      "\<forall>j<length ?lens0. lens ! j =
             (if j \<in> set [0..<N] then Some (int (size1 (batch ! (ids ! j)))) else ?lens0 ! j)"
    by blast
  have lp: "length padded = length batch" "length lens = length batch"
    using r(2,3) by (simp_all add: N_def)
  have lens: "lens = map (\<lambda>k. Some (int (size1 (batch ! k)))) ids"
    using r(3,5) lids by (intro nth_equalityI) simp_all
  have km: "map (\<lambda>k. int (size1 (batch ! k))) ids = map ((!) keys) ids"
    using a1 by (simp add: keys_def)
  have sorted: "sorted_wrt (\<lambda>a b. a \<ge> b) (map (\<lambda>k. int (size1 (batch ! k))) ids)"
    unfolding km by (rule srt)
  have blocks: "\<forall>i<length batch. length (padded ! i) = F
          \<and> (\<forall>r<F. length (padded ! i ! r) = M
               \<and> (\<forall>c<M. padded ! i ! r ! c =
                     (if c < size1 (batch ! (ids ! i))
                      then entries (batch ! (ids ! i)) ! r ! c else 0)))"
  proof (intro allI impI)
    fix i assume "i < length batch"
    then have i: "i < N" by (simp add: N_def)
    let ?mel = "batch ! (ids ! i)"
    have "ids ! i \<in> set ids" using i lids by simp
    then have "?mel \<in> set batch" using a1 by simp
    then have mel: "tensor_ok ?mel" "size0 ?mel = F" "size1 ?mel \<le> M"
      using assms(3) a2 by simp_all
    have blk: "padded ! i = map (\<lambda>r. entries ?mel ! r @ drop (size1 ?mel) (?padded0 ! i ! r)) [0..<F]"
      using r(4) i by simp
    have rows: "length (padded ! i ! r) = M
               \<and> (\<forall>c<M. padded ! i ! r ! c =
                     (if c < size1 ?mel then entries ?mel ! r ! c else 0))" if r: "r < F" for r
    proof -
      have "entries ?mel ! r \<in> set (entries ?mel)"
        using mel(1,2) r by (simp add: tensor_ok_def)
      then have lr: "length (entries ?mel ! r) = size1 ?mel"
        using mel(1) by (simp add: tensor_ok_def)
      have row: "padded ! i ! r = entries ?mel ! r @ replicate (M - size1 ?mel) 0"
        using blk r i by simp
      show ?thesis unfolding row using lr mel(3) by (auto simp: nth_append)
    qed
    show "length (padded ! i) = F
          \<and> (\<forall>r<F. length (padded ! i ! r) = M
               \<and> (\<forall>c<M. padded ! i ! r ! c =
                     (if c < size1 ?mel then entries ?mel ! r ! c else 0)))"
      using blk rows by simp
  qed
  have pm: "mset ids = mset [0..<length batch]" using perm by (simp add: N_def)
  have res: "MelCollate_call sort_desc max_len batch = Inr (padded, lens)"
    using call r(1) by simp
  have "MelCollate_call sort_desc max_len batch = Inr (padded, lens)
     \<and> length padded = length batch \<and> length lens = length batch
     \<and> mset ids = mset [0..<length batch]
     \<and> lens = map (\<lambda>k. Some (int (size1 (batch ! k)))) ids
     \<and> sorted_wrt (\<lambda>a b. a \<ge> b) (map (\<lambda>k. int (size1 (batch ! k))) ids)
     \<and> (\<forall>i<length batch. length (padded ! i) = F
          \<and> (\<forall>r<F. length (padded ! i ! r) = M
               \<and> (\<forall>c<M. padded ! i ! r ! c =
                     (if c < size1 (batch ! (ids ! i))
                      then entries (batch ! (ids ! i)) ! r ! c else 0))))"
    using res lp pm lens sorted blocks by (intro conjI)
  then show ?thesis
    unfolding ids_def keys_def M_def by (intro exI)
qed

theorem C9_collate_witness:
  "sort_contract (\<lambda>keys. rev (sort_key ((!) keys) [0..<length keys]))
   \<and> MelCollate_call (\<lambda>keys. rev (sort_key ((!) keys) [0..<length keys])) 20
        [\<lparr>size0 = 1, size1 = 10, entries = [replicate 10 (1::int)]\<rparr>,
         \<lparr>size0 = 1, size1 = 3, entries = [replicate 3 2]\<rparr>,
         \<lparr>size0 = 1, size1 = 7, entries = [replicate 7 3]\<rparr>]
       = Inr ([[replicate 10 1 @ replicate 10 0],
               [replicate 7 3 @ replicate 13 0],
               [replicate 3 2 @ replicate 17 0]],
              [Some 10, Some 7, Some 3])
   \<and> (\<exists>padded lens.
         MelCollate_call (\<lambda>keys. rev (sort_key ((!) keys) [0..<length keys])) 20
          [\<lparr>size0 = 1, size1 = 10, entries = [replicate 10 (1::int)]\<rparr>,
           \<lparr>size0 = 1, size1 = 3, entries = [replicate 3 2]\<rparr>,
           \<lparr>size0 = 1, size1 = 7, entries = [replicate 7 3]\<rparr>] = Inr (padded, lens)
         \<and> length padded = 3 \<and> length lens = 3)"
proof -
  let ?sd = "\<lambda>keys :: int list. rev (sort_key ((!) keys) [0..<length keys])"
  let ?batch = "[\<lparr>size0 = 1, size1 = 10, entries = [replicate 10 (1::int)]\<rparr>,
         \<lparr>size0 = 1, size1 = 3, entries = [replicate 3 2]\<rparr>,
         \<lparr>size0 = 1, size1 = 7, entries = [replicate 7 3]\<rparr>]"
  have c: "sort_contract ?sd"
    unfolding sort_contract_def
  proof (intro allI conjI)
    fix keys :: "int list"
    show "mset (?sd keys) = mset [0..<length keys]" by simp
    have "sorted (map ((!) keys) (sort_key ((!) keys) [0..<length keys]))"
      by (rule sorted_sort_key)
    then show "sorted_wrt (\<lambda>a b. a \<ge> b) (map ((!) keys) (?sd keys))"
      by (simp add: rev_map [symmetric] sorted_wrt_rev)
  qed
  have n: "?batch \<noteq> []" by simp
  have h: "\<forall>m\<in>set ?batch. tensor_ok m \<and> size0 m = 1 \<and> int (size1 m) \<le> 20"
    by (simp add: tensor_ok_def)
  have e: "MelCollate_call ?sd 20 ?batch
       = Inr ([[replicate 10 1 @ replicate 10 0],
               [replicate 7 3 @ replicate 13 0],
               [replicate 3 2 @ replicate 17 0]],
              [Some 10, Some 7, Some 3])"
    by code_simp
  from C9_collate [of ?sd ?batch 1 20, OF c n h]
  have "\<exists>padded lens. MelCollate_call ?sd 20 ?batch = Inr (padded, lens)
         \<and> length padded = 3 \<and> length lens = 3"
    by auto
  then show ?thesis using c e by blast
qed

text \<open>
  C10. The loop that removes empty buckets stops above index 0. When the boundaries are
  strictly increasing, \<open>num_replicas * batch_size\<close> is not 0, the rank is one of
  \<open>0, \<dots>, num_replicas - 1\<close>, no item falls in the first
  interval and item \<open>j\<close> falls in a later interval \<open>i\<close>, construction succeeds, the first
  retained bucket is empty, item \<open>j\<close> is in a retained bucket, and \<open>__iter__\<close> fails with
  ZeroDivisionError in every epoch.
\<close>

theorem C10_empty_first_bucket:
  assumes "sorted_wrt (<) bs" "R * B \<noteq> 0"
    and "\<forall>k<length ls. \<not> (bs ! 0 < ls ! k \<and> ls ! k \<le> bs ! 1)"
    and "j < length ls" "1 \<le> i" "Suc i < length bs" "bs ! i < ls ! j" "ls ! j \<le> bs ! Suc i"
    and "0 \<le> rk" "rk < R"
  shows "\<exists>s. init ls B bs R rk sh = Inr s \<and> buckets s \<noteq> [] \<and> hd (buckets s) = []
     \<and> (\<exists>b\<in>set (buckets s). j \<in> set b)
     \<and> (\<forall>e. iter ms rp (set_epoch s e) = (Inl ZeroDivisionError, set_epoch s e))"
proof -
  have 2: "2 \<le> length bs" using assms(5,6) by simp
  from init_ok [OF 2 assms(2,9,10), of ls sh] obtain s where
    s: "init ls B bs R rk sh = Inr s" "buckets s = retained bs ls"
      "num_samples_per_bucket s =
         map (\<lambda>b. int (length b) + (R * B - int (length b) mod (R * B)) mod (R * B))
           (retained bs ls)"
    by auto
  have "\<forall>k<length ls. bisect_call bs (ls ! k) \<noteq> Inr 0"
  proof (intro allI impI notI)
    fix k assume k: "k < length ls" and z: "bisect_call bs (ls ! k) = Inr 0"
    from bisect_call_sound [of bs "ls ! k"] z
    have "bs ! 0 < ls ! k \<and> ls ! k \<le> bs ! 1" by auto
    then show False using assms(3) k by blast
  qed
  then have first: "assigned bs ls 0 = []" by (auto simp: assigned_def filter_empty_conv)
  have "bisect_call bs (ls ! j) = Inr (int i)"
    using bisect_call_complete [OF assms(1,6,7,8)] .
  then have j: "j \<in> set (assigned bs ls i)" using assms(4) by (simp add: assigned_def)
  then have "assigned bs ls i \<noteq> []" by auto
  moreover have "i \<in> set [1..<length bs - 1]" using assms(5,6) by auto
  ultimately have mem: "assigned bs ls i \<in> set (retained bs ls)" by (auto simp: retained_def)
  have later: "\<exists>b\<in>set (buckets s). j \<in> set b"
    unfolding s(2) using mem j by (rule bexI [rotated])
  have b: "buckets s = [] # filter (\<lambda>b. b \<noteq> []) (map (assigned bs ls) [1..<length bs - 1])"
    using s(2) first by (simp add: retained_def)
  have n: "num_samples_per_bucket s \<noteq> []" using s(3) by (simp add: retained_def)
  have "\<forall>e. iter ms rp (set_epoch s e) = (Inl ZeroDivisionError, set_epoch s e)"
  proof
    fix e
    have "buckets (set_epoch s e) = [] # filter (\<lambda>b. b \<noteq> []) (map (assigned bs ls) [1..<length bs - 1])"
      "num_samples_per_bucket (set_epoch s e) \<noteq> []"
      using b n by (simp_all add: set_epoch_def)
    then show "iter ms rp (set_epoch s e) = (Inl ZeroDivisionError, set_epoch s e)"
      by (rule iter_first_empty)
  qed
  then show ?thesis using s(1) b later by auto
qed

theorem C10_empty_first_bucket_witness:
  "sorted_wrt (<) [0, 10, 20 :: int] \<and> (1::int) * 1 \<noteq> 0 \<and> (0::int) \<le> 0 \<and> (0::int) < 1
   \<and> \<not> ((0::int) < 15 \<and> (15::int) \<le> 10) \<and> (10::int) < 15 \<and> (15::int) \<le> 20
   \<and> init [15] 1 [0, 10, 20] 1 0 True =
       Inr \<lparr>lengths = [15], batch_size = 1, boundaries = [0, 10, 20], num_replicas = 1,
            rank = 0, shuffle = True, epoch = 0, buckets = [[], [0]],
            num_samples_per_bucket = [0, 1], total_size = 1, num_samples = 1, batches = None\<rparr>
   \<and> fst (iter (\<lambda>e. e) (\<lambda>n (g::int). (rev [0..<n], g + 1))
       \<lparr>lengths = [15], batch_size = 1, boundaries = [0, 10, 20], num_replicas = 1,
            rank = 0, shuffle = True, epoch = 3, buckets = [[], [0]],
            num_samples_per_bucket = [0, 1], total_size = 1, num_samples = 1, batches = None\<rparr>)
       = Inl ZeroDivisionError"
proof -
  have h: "sorted_wrt (<) [0, 10, 20 :: int]" "(1::int) * 1 \<noteq> 0"
    "\<forall>k<length [15::int]. \<not> ([0, 10, 20 :: int] ! 0 < [15 :: int] ! k
        \<and> [15 :: int] ! k \<le> [0, 10, 20 :: int] ! 1)"
    "0 < length [15::int]" "(1::nat) \<le> 1" "Suc 1 < length [0, 10, 20 :: int]"
    "[0, 10, 20 :: int] ! 1 < [15] ! 0" "[15 :: int] ! 0 \<le> [0, 10, 20 :: int] ! Suc 1"
    by simp_all
  have i: "init [15] 1 [0, 10, 20] 1 0 True =
       Inr \<lparr>lengths = [15], batch_size = 1, boundaries = [0, 10, 20], num_replicas = 1,
            rank = 0, shuffle = True, epoch = 0, buckets = [[], [0]],
            num_samples_per_bucket = [0, 1], total_size = 1, num_samples = 1, batches = None\<rparr>"
    by code_simp
  have r: "(0::int) \<le> 0" "(0::int) < 1" by simp_all
  from C10_empty_first_bucket [OF h r, of True "\<lambda>e. e" "\<lambda>n (g::int). (rev [0..<n], g + 1)"] i
  show ?thesis by (auto simp: set_epoch_def)
qed

end
